theory Spec2Isabelle
  imports Main "HOL-Library.Multiset"
begin

section \<open>The daily digest script (scripts/daily-digest.js)\<close>

text \<open>
  The script reads six tables, matches the alerts of every user against the events of
  the target date, and sends one e-mail per matched user, in batches. The embedding
  follows the script from top to bottom. Rows are records with the column names of the
  script; a column that can be \<open>null\<close> is an \<open>option\<close>. Identifiers compared with the
  numerals \<open>20\<close>, \<open>1\<close> and \<open>22\<close> are integers; user identifiers are strings. The \<open>name\<close>
  columns of teams and broadcasters are taken to be present (the script calls a method
  on them without a guard).
\<close>

subsection \<open>Rows and query results\<close>

record sport =
  id :: int
  name :: string
  emoji :: string

record team =
  id :: int
  name :: string

record broadcaster =
  id :: int
  name :: string
  url :: string
  type :: "string option"

record user =
  id :: string
  email :: "string option"

record event =
  id :: int
  sport_id :: "int option"
  competition :: "string option"
  date :: string
  time :: "string option"
  event_detail_1 :: "string option"
  event_detail_2 :: "string option"
  broadcaster_ids :: "int list option"
  start_at :: "string option"

text \<open>Line 69 adds the field \<open>broadcasters\<close> to every event object.\<close>

record enriched_event = event +
  broadcasters :: "broadcaster list"

record alert =
  id :: int
  user_id :: string
  sport_id :: "int option"
  league_id :: "int option"
  team_id :: "int option"

text \<open>A query result of the data store client: \<open>{ data, error }\<close>.\<close>

record 'a response =
  data :: "'a list option"
  error :: "string option"

subsection \<open>JavaScript operators and library functions\<close>

text \<open>\<open>!x\<close> on a nullable number: \<open>null\<close> and \<open>0\<close> are falsy.\<close>

definition falsy_num :: "int option \<Rightarrow> bool" where
  "falsy_num x = (x = None \<or> x = Some 0)"

text \<open>\<open>!x\<close> on a nullable string: \<open>null\<close> and the empty string are falsy.\<close>

definition falsy_str :: "string option \<Rightarrow> bool" where
  "falsy_str x = (x = None \<or> x = Some [])"

text \<open>\<open>xs || []\<close> on a nullable array (every array is truthy).\<close>

definition or_empty :: "'a list option \<Rightarrow> 'a list" where
  "or_empty d = (case d of None \<Rightarrow> [] | Some xs \<Rightarrow> xs)"

text \<open>\<open>Object.fromEntries\<close>: a later entry replaces an earlier one with the same key.\<close>

definition fromEntries :: "('k \<times> 'v) list \<Rightarrow> ('k \<rightharpoonup> 'v)" where
  "fromEntries kvs = map_of (rev kvs)"

text \<open>
  Three functions of the host depend on Unicode and locale data that the script does not
  hold: \<open>String.prototype.toLowerCase\<close>, \<open>String.prototype.localeCompare\<close> and the long-form
  date of \<open>Date.prototype.toLocaleDateString\<close>. They are parameters of the embedding:
  every function that calls one of them takes the host.
\<close>

record host =
  toLowerCase :: "string \<Rightarrow> string"
  localeCompare :: "string \<Rightarrow> string \<Rightarrow> int"
  formatDate :: "string \<Rightarrow> string"

text \<open>
  \<open>Array.prototype.sort\<close> with a comparator \<open>cmp\<close> (negative, zero or positive): the sort is
  stable, so it is the insertion sort that puts an element before the first element it
  does not follow.
\<close>

fun insort_cmp :: "('a \<Rightarrow> 'a \<Rightarrow> int) \<Rightarrow> 'a \<Rightarrow> 'a list \<Rightarrow> 'a list" where
  "insort_cmp cmp x [] = [x]"
| "insort_cmp cmp x (y # ys) = (if cmp x y \<le> 0 then x # y # ys else y # insort_cmp cmp x ys)"

definition js_sort :: "('a \<Rightarrow> 'a \<Rightarrow> int) \<Rightarrow> 'a list \<Rightarrow> 'a list" where
  "js_sort cmp xs = foldr (insort_cmp cmp) xs []"

subsection \<open>Date resolver (lines 29 to 40)\<close>

text \<open>
  \<open>DateTime.now().setZone("Europe/Paris")\<close> is the current instant as civil time in Paris:
  the input of the resolver (the date library converts the instant, daylight saving
  time included). \<open>plus({ days: 1 })\<close> moves to the same time of the next calendar day and
  \<open>toISODate\<close> prints the calendar date; in a year after 9999 it prints a sign and six
  digits.
\<close>

record civil_time =
  year :: nat
  month :: nat
  day :: nat
  hour :: nat
  minute :: nat
  second :: nat

definition isLeapYear :: "nat \<Rightarrow> bool" where
  "isLeapYear y = (y mod 4 = 0 \<and> (y mod 100 \<noteq> 0 \<or> y mod 400 = 0))"

definition daysInMonth :: "nat \<Rightarrow> nat \<Rightarrow> nat" where
  "daysInMonth y m =
     (if m = 2 then (if isLeapYear y then 29 else 28)
      else if m \<in> {4, 6, 9, 11} then 30 else 31)"

definition plus_one_day :: "civil_time \<Rightarrow> civil_time" where
  "plus_one_day t =
     (if day t < daysInMonth (year t) (month t) then t\<lparr>day := day t + 1\<rparr>
      else if month t < 12 then t\<lparr>month := month t + 1, day := 1\<rparr>
      else t\<lparr>year := year t + 1, month := 1, day := 1\<rparr>)"

definition digit :: "nat \<Rightarrow> char" where
  "digit n = ''0123456789'' ! (n mod 10)"

fun digits :: "nat \<Rightarrow> string" where
  "digits n = (if n < 10 then [digit n] else digits (n div 10) @ [digit n])"

declare digits.simps [simp del]

text \<open>\<open>padStart\<close> of the library: the decimal digits, filled with zeros on the left.\<close>

definition padStart :: "nat \<Rightarrow> nat \<Rightarrow> string" where
  "padStart n w = replicate (w - length (digits n)) CHR ''0'' @ digits n"

definition toISODate :: "civil_time \<Rightarrow> string" where
  "toISODate t =
     (if year t > 9999 then ''+'' @ padStart (year t) 6 else padStart (year t) 4)
     @ ''-'' @ padStart (month t) 2 @ ''-'' @ padStart (day t) 2"

definition targetDate :: "civil_time \<Rightarrow> string" where
  "targetDate nowParis =
     (if hour nowParis < 6 then toISODate nowParis
      else toISODate (plus_one_day nowParis))"

subsection \<open>Lookup maps (lines 61 to 64) and event enrichment (lines 67 to 70)\<close>

definition sportsMap_of :: "sport list option \<Rightarrow> (int \<rightharpoonup> sport)" where
  "sportsMap_of d = fromEntries (map (\<lambda>s. (sport.id s, s)) (or_empty d))"

definition teamsMap_of :: "host \<Rightarrow> team list option \<Rightarrow> (int \<rightharpoonup> string)" where
  "teamsMap_of h d =
     fromEntries (map (\<lambda>t. (team.id t, toLowerCase h (team.name t))) (or_empty d))"

definition userIdToEmail_of :: "user list option \<Rightarrow> (string \<rightharpoonup> string option)" where
  "userIdToEmail_of d = fromEntries (map (\<lambda>u. (user.id u, email u)) (or_empty d))"

definition broadcasterMap_of :: "broadcaster list option \<Rightarrow> (int \<rightharpoonup> broadcaster)" where
  "broadcasterMap_of d = fromEntries (map (\<lambda>b. (broadcaster.id b, b)) (or_empty d))"

text \<open>
  \<open>(e.broadcaster_ids || []).map((id) => broadcasterMap[id]).filter(Boolean)\<close>: a missing
  key gives \<open>undefined\<close> (here \<open>None\<close>), which \<open>filter(Boolean)\<close> removes.
\<close>

definition resolve_broadcasters :: "(int \<rightharpoonup> broadcaster) \<Rightarrow> int list option \<Rightarrow> broadcaster list" where
  "resolve_broadcasters broadcasterMap ids =
     map the (filter (\<lambda>b. b \<noteq> None) (map broadcasterMap (or_empty ids)))"

definition enrich :: "(int \<rightharpoonup> broadcaster) \<Rightarrow> event \<Rightarrow> enriched_event" where
  "enrich broadcasterMap e =
     event.extend e \<lparr>broadcasters = resolve_broadcasters broadcasterMap (broadcaster_ids e)\<rparr>"

subsection \<open>Matcher (lines 73 to 90)\<close>

definition league_code :: "string option \<Rightarrow> int option" where
  "league_code c =
     (if c = Some ''ATP Tour'' then Some 1 else if c = Some ''WTA Tour'' then Some 22 else None)"

text \<open>
  The expression \<open>match\<close> of lines 79 to 81. \<open>x?.toLowerCase()\<close> is \<open>undefined\<close> for a \<open>null\<close>
  detail and \<open>teamsMap[alert.team_id]\<close> is \<open>undefined\<close> for a missing key; \<open>includes\<close>
  finds \<open>undefined\<close> in an array that holds it. Both are \<open>None\<close> here.
\<close>

definition match_alert ::
  "host \<Rightarrow> (int \<rightharpoonup> string) \<Rightarrow> 'a event_scheme \<Rightarrow> alert \<Rightarrow> bool" where
  "match_alert h teamsMap event alert =
     (let isTennis = (event.sport_id event = Some 20) in
      if isTennis
      then falsy_num (league_id alert) \<or> league_id alert = league_code (competition event)
      else falsy_num (team_id alert) \<or>
           Option.bind (team_id alert) teamsMap
             \<in> set (map (map_option (toLowerCase h))
                      [event_detail_1 event, event_detail_2 event]))"

text \<open>
  \<open>userEventsMap\<close> is a \<open>Map\<close> from user identifiers to a \<open>Set\<close> of event objects; both
  keep insertion order. An event object is its position in the array \<open>events\<close> (its
  identity) together with its row, and the \<open>Set\<close> compares by identity.
\<close>

type_synonym 'e event_set = "(nat \<times> 'e) list"
type_synonym 'e userEventsMap = "(string \<times> 'e event_set) list"

definition map_has :: "('k \<times> 'v) list \<Rightarrow> 'k \<Rightarrow> bool" where
  "map_has m k = (k \<in> set (map fst m))"

definition set_add :: "'a \<Rightarrow> 'a list \<Rightarrow> 'a list" where
  "set_add x s = (if x \<in> set s then s else s @ [x])"

fun add_to :: "'k \<Rightarrow> 'a \<Rightarrow> ('k \<times> 'a list) list \<Rightarrow> ('k \<times> 'a list) list" where
  "add_to k x [] = []"
| "add_to k x ((k', s) # m) =
     (if k' = k then (k', set_add x s) # m else (k', s) # add_to k x m)"

definition on_alert ::
  "host \<Rightarrow> (int \<rightharpoonup> string) \<Rightarrow> nat \<times> 'a event_scheme \<Rightarrow> alert \<Rightarrow>
   'a event_scheme userEventsMap \<Rightarrow> 'a event_scheme userEventsMap" where
  "on_alert h teamsMap ev alert m =
     (if alert.sport_id alert \<noteq> event.sport_id (snd ev) then m
      else if match_alert h teamsMap (snd ev) alert then
        add_to (user_id alert) ev
          (if \<not> map_has m (user_id alert) then m @ [(user_id alert, [])] else m)
      else m)"

definition match_users ::
  "host \<Rightarrow> (int \<rightharpoonup> string) \<Rightarrow> 'a event_scheme list \<Rightarrow> alert list \<Rightarrow> 'a event_scheme userEventsMap" where
  "match_users h teamsMap events alerts =
     fold (\<lambda>ev m. fold (on_alert h teamsMap ev) alerts m) (enumerate 0 events) []"

text \<open>The event objects that the map holds for a user (none when the user is absent).\<close>

definition events_of :: "string \<Rightarrow> 'e userEventsMap \<Rightarrow> 'e event_set" where
  "events_of u m = (case map_of m u of None \<Rightarrow> [] | Some s \<Rightarrow> s)"

text \<open>
  An event qualifies for a user when one of the user's alerts passes the two tests of
  the loop body (lines 77 and 79 to 81) on it.
\<close>

definition qualifies ::
  "host \<Rightarrow> (int \<rightharpoonup> string) \<Rightarrow> alert list \<Rightarrow> string \<Rightarrow> 'a event_scheme \<Rightarrow> bool" where
  "qualifies h teamsMap alerts u e =
     (\<exists>a\<in>set alerts. user_id a = u \<and> alert.sport_id a = event.sport_id e
        \<and> match_alert h teamsMap e a)"

subsection \<open>Digest renderer (lines 130 to 353)\<close>

text \<open>
  The e-mail body is kept as its structure: one block per event, with the interpolated
  values of the template; the fixed markup around them is left out.
\<close>

datatype section_part =
  GroupHeader string string
| BroadcasterRow broadcaster string
| NoBroadcaster

record event_block =
  title :: string
  detail_sport :: string
  detail_competition :: string
  detail_event :: string
  detail_date :: string
  detail_time :: string
  diffuseurs :: "section_part list"

definition formatTime :: "string option \<Rightarrow> string" where
  "formatTime timeStr = (case timeStr of None \<Rightarrow> [] | Some s \<Rightarrow> take 5 s)"

definition or_else :: "string option \<Rightarrow> string \<Rightarrow> string" where
  "or_else x d = (if falsy_str x then d else the x)"

definition tv_of :: "host \<Rightarrow> broadcaster list \<Rightarrow> broadcaster list" where
  "tv_of h bs =
     js_sort (\<lambda>a b. localeCompare h (broadcaster.name a) (broadcaster.name b))
       (filter (\<lambda>b. type b = Some ''tv'') bs)"

definition streaming_of :: "host \<Rightarrow> broadcaster list \<Rightarrow> broadcaster list" where
  "streaming_of h bs =
     js_sort (\<lambda>a b. localeCompare h (broadcaster.name a) (broadcaster.name b))
       (filter (\<lambda>b. type b = Some ''streaming'') bs)"

text \<open>Lines 322 to 346: the three conditional parts of the section "Diffuseurs".\<close>

definition broadcasters_section :: "broadcaster list \<Rightarrow> broadcaster list \<Rightarrow> section_part list" where
  "broadcasters_section tv streaming =
     (if length tv > 0
      then GroupHeader ''TV'' ''4px'' # map (\<lambda>b. BroadcasterRow b ''tv'') tv else [])
     @ (if length streaming > 0
        then GroupHeader ''STREAMING'' (if length tv > 0 then ''25px'' else ''4px'')
             # map (\<lambda>b. BroadcasterRow b ''streaming'') streaming
        else [])
     @ (if length tv = 0 \<and> length streaming = 0 then [NoBroadcaster] else [])"

definition generateEventHTML :: "host \<Rightarrow> enriched_event \<Rightarrow> (int \<rightharpoonup> sport) \<Rightarrow> event_block" where
  "generateEventHTML h event sportsMap =
     (let sport = (case Option.bind (event.sport_id event) sportsMap of
                     None \<Rightarrow> (''Sport'', [CHR 0xF0, CHR 0x9F, CHR 0x8F, CHR 0x86])
                   | Some s \<Rightarrow> (sport.name s, emoji s));
          tv = tv_of h (broadcasters event);
          streaming = streaming_of h (broadcasters event)
      in \<lparr>title = snd sport @ '' '' @ fst sport @ '' - ''
                  @ or_else (competition event) (''Comp'' @ [CHR 0xC3, CHR 0xA9] @ ''tition'')
                  @ '' - '' @ formatTime (time event),
          detail_sport = fst sport,
          detail_competition = or_else (competition event) ''N/A'',
          detail_event =
            (case event_detail_1 event of None \<Rightarrow> ''null'' | Some s \<Rightarrow> s)
            @ (if falsy_str (event_detail_2 event) then []
               else '' - '' @ the (event_detail_2 event)),
          detail_date = formatDate h (date event),
          detail_time = formatTime (time event),
          diffuseurs = broadcasters_section tv streaming\<rparr>)"

definition generateEmailHTML :: "host \<Rightarrow> enriched_event list \<Rightarrow> (int \<rightharpoonup> sport) \<Rightarrow> event_block list" where
  "generateEmailHTML h events sportsMap = map (\<lambda>event. generateEventHTML h event sportsMap) events"

subsection \<open>Dispatcher (lines 93 to 127)\<close>

datatype log_line =
  Starting
| TriggeredBefore6 nat string
| TriggeredAfter6 nat string
| NoEventsFound
| FoundEvents nat string
| PreparingDigest nat
| SentTo string
| Done nat nat

datatype error_line =
  SendFailed string
| Rejected string
| Uncaught string

datatype effect =
  ConsoleLog log_line
| ConsoleError error_line
| SgSend string "event_block list"
| Sleep nat

record dstate =
  sent :: nat
  failed :: nat
  trace :: "effect list"

definition BATCH_SIZE :: nat where
  "BATCH_SIZE = 5"

definition DELAY_BETWEEN_BATCHES :: nat where
  "DELAY_BETWEEN_BATCHES = 2000"

definition DELAY_BETWEEN_EMAILS :: nat where
  "DELAY_BETWEEN_EMAILS = 600"

definition sleep :: "nat \<Rightarrow> dstate \<Rightarrow> dstate" where
  "sleep ms st = st\<lparr>trace := trace st @ [Sleep ms]\<rparr>"

definition sorted_events :: "host \<Rightarrow> enriched_event event_set \<Rightarrow> enriched_event event_set" where
  "sorted_events h eventsSet =
     js_sort (\<lambda>a b. localeCompare h (or_else (start_at (snd a)) []) (or_else (start_at (snd b)) []))
       eventsSet"

text \<open>
  The body of the inner loop (lines 99 to 122). \<open>sgMail_send k\<close> tells whether the
  transport accepts the \<open>k\<close>-th message of the run.
\<close>

definition send_digest ::
  "host \<Rightarrow> (int \<rightharpoonup> sport) \<Rightarrow> (string \<rightharpoonup> string option) \<Rightarrow> (nat \<Rightarrow> bool) \<Rightarrow>
   string \<times> enriched_event event_set \<Rightarrow> dstate \<Rightarrow> dstate" where
  "send_digest h sportsMap userIdToEmail sgMail_send entry st =
     (let email = (case userIdToEmail (fst entry) of None \<Rightarrow> None | Some e \<Rightarrow> e);
          eventsSet = snd entry
      in if falsy_str email \<or> length eventsSet = 0 then st
         else
           let sorted = map snd (sorted_events h eventsSet);
               html = generateEmailHTML h sorted sportsMap;
               st1 = st\<lparr>trace := trace st @ [SgSend (the email) html]\<rparr>;
               st2 = (if sgMail_send (sent st + failed st)
                      then st1\<lparr>trace := trace st1 @ [ConsoleLog (SentTo (the email))],
                              sent := sent st1 + 1\<rparr>
                      else st1\<lparr>trace := trace st1 @ [ConsoleError (SendFailed (the email))],
                              failed := failed st1 + 1\<rparr>)
           in sleep DELAY_BETWEEN_EMAILS st2)"

text \<open>
  The outer loop (lines 96 to 125), for any batch size \<open>B\<close> and any loop body. With
  \<open>B = 0\<close> the counter does not advance and the loop does not return: the result is
  \<open>None\<close>.
\<close>

partial_function (option) send_batches ::
  "nat \<Rightarrow> ('a \<Rightarrow> dstate \<Rightarrow> dstate) \<Rightarrow> 'a list \<Rightarrow> nat \<Rightarrow> dstate \<Rightarrow> dstate option" where
  "send_batches B body usersList i st =
     (if i < length usersList then
        send_batches B body usersList (i + B)
          (let batch = take B (drop i usersList);
               st1 = fold body batch st
           in if i + B < length usersList then sleep DELAY_BETWEEN_BATCHES st1 else st1)
      else Some st)"

subsection \<open>The run (lines 21 to 128) and the process (lines 11 to 13 and 356)\<close>

record db =
  sportsRes :: "sport response"
  eventsRes :: "string \<Rightarrow> event response"
  broadcastersRes :: "broadcaster response"
  teamsRes :: "team response"
  alertsRes :: "alert response"
  usersRes :: "user response"

datatype completion = Returned | Threw string

definition main ::
  "host \<Rightarrow> civil_time \<Rightarrow> db \<Rightarrow> (nat \<Rightarrow> bool) \<Rightarrow> (effect list \<times> completion) option" where
  "main h nowParis store sgMail_send =
     (let log0 = [ConsoleLog Starting,
                  ConsoleLog (if hour nowParis < 6
                              then TriggeredBefore6 (hour nowParis) (targetDate nowParis)
                              else TriggeredAfter6 (hour nowParis) (targetDate nowParis))];
          events_res = eventsRes store (targetDate nowParis)
      in if error events_res \<noteq> None
         then Some (log0, Threw (''Error fetching events: '' @ the (error events_res)))
         else if length (or_empty (data events_res)) = 0
         then Some (log0 @ [ConsoleLog NoEventsFound], Returned)
         else
           let log1 = log0 @ [ConsoleLog (FoundEvents (length (or_empty (data events_res)))
                                            (targetDate nowParis))];
               sportsMap = sportsMap_of (data (sportsRes store));
               teamsMap = teamsMap_of h (data (teamsRes store));
               userIdToEmail = userIdToEmail_of (data (usersRes store));
               broadcasterMap = broadcasterMap_of (data (broadcastersRes store));
               events = map (enrich broadcasterMap) (or_empty (data events_res));
               usersList = match_users h teamsMap events (or_empty (data (alertsRes store)));
               log2 = log1 @ [ConsoleLog (PreparingDigest (length usersList))]
           in case send_batches BATCH_SIZE
                     (send_digest h sportsMap userIdToEmail sgMail_send) usersList 0
                     \<lparr>sent = 0, failed = 0, trace = log2\<rparr> of
                None \<Rightarrow> None
              | Some st \<Rightarrow> Some (trace st @ [ConsoleLog (Done (sent st) (failed st))], Returned))"

record environment =
  SENDGRID_API_KEY :: "string option"
  SUPABASE_URL :: "string option"
  SUPABASE_SERVICE_ROLE_KEY :: "string option"

record process_end =
  printed :: "effect list"
  exit_code :: nat

text \<open>
  The module: the \<open>throw\<close> of line 12 is not caught and ends the process with status 1;
  a rejection of \<open>main()\<close> is handled by \<open>.catch(console.error)\<close>, which prints the error,
  and the process then ends as after a normal return. Nothing in the script sets an exit
  status.
\<close>

definition script ::
  "environment \<Rightarrow> host \<Rightarrow> civil_time \<Rightarrow> db \<Rightarrow> (nat \<Rightarrow> bool) \<Rightarrow> process_end option" where
  "script env h nowParis store sgMail_send =
     (if falsy_str (SENDGRID_API_KEY env) \<or> falsy_str (SUPABASE_URL env)
         \<or> falsy_str (SUPABASE_SERVICE_ROLE_KEY env)
      then Some \<lparr>printed = [ConsoleError (Uncaught ''Missing required environment variables'')],
                 exit_code = 1\<rparr>
      else case main h nowParis store sgMail_send of
             None \<Rightarrow> None
           | Some (out, Returned) \<Rightarrow> Some \<lparr>printed = out, exit_code = 0\<rparr>
           | Some (out, Threw msg) \<Rightarrow>
               Some \<lparr>printed = out @ [ConsoleError (Rejected msg)], exit_code = 0\<rparr>)"

subsection \<open>The batching of the dispatcher, in the words of the specification\<close>

text \<open>
  Consecutive groups of \<open>B\<close> users, the last one shorter when \<open>B\<close> does not divide the
  number of users; the longer delay between two groups and not after the last.
\<close>

function groups_of :: "nat \<Rightarrow> 'a list \<Rightarrow> 'a list list" where
  "groups_of B xs = (if B = 0 \<or> xs = [] then [] else take B xs # groups_of B (drop B xs))"
  by pat_completeness auto
termination
  by (relation "measure (\<lambda>(B, xs). length xs)") auto

declare groups_of.simps [simp del]

fun run_groups :: "('a \<Rightarrow> dstate \<Rightarrow> dstate) \<Rightarrow> 'a list list \<Rightarrow> dstate \<Rightarrow> dstate" where
  "run_groups body [] st = st"
| "run_groups body [g] st = fold body g st"
| "run_groups body (g # gs) st = run_groups body gs (sleep DELAY_BETWEEN_BATCHES (fold body g st))"

subsection \<open>Calendar dates and ISO dates\<close>

text \<open>
  The Gregorian calendar, written without the functions of the resolver: a year is a
  leap year when 400 divides it, or when 4 divides it and 100 does not;
  the twelve months have the lengths of the table; a date of the calendar has a month
  of the year and a day of the month. Dates are ordered by year, then month, then day.
\<close>

definition gregorian_leap :: "nat \<Rightarrow> bool" where
  "gregorian_leap y = (400 dvd y \<or> (4 dvd y \<and> \<not> 100 dvd y))"

definition month_lengths :: "nat \<Rightarrow> nat list" where
  "month_lengths y =
     [31, if gregorian_leap y then 29 else 28, 31, 30, 31, 30, 31, 31, 30, 31, 30, 31]"

definition calendar_date :: "civil_time \<Rightarrow> bool" where
  "calendar_date t =
     (1 \<le> month t \<and> month t \<le> 12 \<and> 1 \<le> day t
      \<and> day t \<le> month_lengths (year t) ! (month t - 1))"

definition earlier_date :: "civil_time \<Rightarrow> civil_time \<Rightarrow> bool" where
  "earlier_date t t' =
     (year t < year t'
      \<or> (year t = year t'
          \<and> (month t < month t' \<or> (month t = month t' \<and> day t < day t'))))"

text \<open>The number that a string of decimal digits spells.\<close>

definition read_nat :: "string \<Rightarrow> nat" where
  "read_nat s = foldl (\<lambda>n c. 10 * n + (of_char c - 48)) 0 s"

subsection \<open>The match rules, in the words of the specification\<close>

text \<open>
  Tennis: the alert has no league filter, or its league filter is the code of the
  competition ("ATP Tour" gives 1, "WTA Tour" gives 22, any other competition none).
\<close>

definition spec_tennis_rule :: "'a event_scheme \<Rightarrow> alert \<Rightarrow> bool" where
  "spec_tennis_rule e a =
     (league_id a = None
      \<or> (league_id a = Some 1 \<and> competition e = Some ''ATP Tour'')
      \<or> (league_id a = Some 22 \<and> competition e = Some ''WTA Tour''))"

text \<open>
  Other sports: the alert has no team filter, or its \<open>team_id\<close> is the identifier of a
  known team whose lowercased name is the lowercased value of one of the two detail
  fields of the event.
\<close>

definition spec_team_rule :: "host \<Rightarrow> team list \<Rightarrow> 'a event_scheme \<Rightarrow> alert \<Rightarrow> bool" where
  "spec_team_rule h teams e a =
     (team_id a = None
      \<or> (\<exists>t\<in>set teams. team_id a = Some (team.id t)
            \<and> (\<exists>s\<in>set_option (event_detail_1 e) \<union> set_option (event_detail_2 e).
                  toLowerCase h (team.name t) = toLowerCase h s)))"

text \<open>
  The inputs on which line 81 compares two \<open>undefined\<close> values: a team filter that is not
  the identifier of any team, against an event with an absent detail field.
\<close>

definition lookup_miss_on_absent_detail :: "team list \<Rightarrow> 'a event_scheme \<Rightarrow> alert \<Rightarrow> bool" where
  "lookup_miss_on_absent_detail teams e a =
     ((event_detail_1 e = None \<or> event_detail_2 e = None)
      \<and> (\<exists>k. team_id a = Some k \<and> k \<noteq> 0 \<and> k \<notin> set (map team.id teams)))"

subsection \<open>Reading a rendered section\<close>

text \<open>
  The groups of a rendered section "Diffuseurs": every group header with the
  broadcasters of the rows that follow it.
\<close>

fun is_row :: "section_part \<Rightarrow> bool" where
  "is_row (BroadcasterRow b g) = True"
| "is_row p = False"

fun row_broadcaster :: "section_part \<Rightarrow> broadcaster list" where
  "row_broadcaster (BroadcasterRow b g) = [b]"
| "row_broadcaster p = []"

fun groups_in :: "section_part list \<Rightarrow> (string \<times> broadcaster list) list" where
  "groups_in [] = []"
| "groups_in (GroupHeader l p # ps) =
     (l, concat (map row_broadcaster (takeWhile is_row ps))) # groups_in ps"
| "groups_in (p # ps) = groups_in ps"

subsection \<open>Reading a trace\<close>

text \<open>The sends and the delays of a trace, in their order.\<close>

datatype pace = Send_to string | Wait nat

fun paces :: "effect list \<Rightarrow> pace list" where
  "paces [] = []"
| "paces (SgSend to html # es) = Send_to to # paces es"
| "paces (Sleep ms # es) = Wait ms # paces es"
| "paces (e # es) = paces es"

subsection \<open>Reading the output of a run\<close>

text \<open>The second line that every run prints (lines 35 and 39).\<close>

definition trigger_line :: "civil_time \<Rightarrow> effect" where
  "trigger_line now =
     ConsoleLog (if hour now < 6 then TriggeredBefore6 (hour now) (targetDate now)
                 else TriggeredAfter6 (hour now) (targetDate now))"

subsection \<open>Example rows, hosts and stores\<close>

definition ex_atp :: enriched_event where
  "ex_atp = \<lparr>event.id = 1, event.sport_id = Some 20, competition = Some ''ATP Tour'',
     date = ''2024-05-01'', time = Some ''14:30:00'', event_detail_1 = Some ''Alcaraz'',
     event_detail_2 = Some ''Sinner'', broadcaster_ids = None, start_at = None,
     broadcasters = []\<rparr>"

definition ex_game :: enriched_event where
  "ex_game = \<lparr>event.id = 2, event.sport_id = Some 1, competition = Some ''NBA'',
     date = ''2024-05-01'', time = Some ''20:00:00'', event_detail_1 = Some ''Lakers'',
     event_detail_2 = None, broadcaster_ids = None, start_at = None,
     broadcasters = []\<rparr>"

definition ex_alert :: "string \<Rightarrow> int \<Rightarrow> int option \<Rightarrow> int option \<Rightarrow> alert" where
  "ex_alert u s l t = \<lparr>alert.id = 1, user_id = u, alert.sport_id = Some s, league_id = l, team_id = t\<rparr>"

definition ex_derby :: enriched_event where
  "ex_derby = \<lparr>event.id = 3, event.sport_id = Some 1, competition = Some ''NBA'',
     date = ''2024-05-01'', time = Some ''21:30:00'', event_detail_1 = Some ''Celtics'',
     event_detail_2 = Some ''LAKERS'', broadcaster_ids = None, start_at = None,
     broadcasters = []\<rparr>"

definition ex_teams :: "team list" where
  "ex_teams = [\<lparr>team.id = 7, team.name = ''Lakers''\<rparr>]"

definition ex_broadcasters :: "broadcaster list" where
  "ex_broadcasters =
     [\<lparr>broadcaster.id = 1, broadcaster.name = ''Eurosport'', url = ''https://e.example'', type = Some ''tv''\<rparr>,
      \<lparr>broadcaster.id = 2, broadcaster.name = ''Canal'', url = ''https://b.example'', type = Some ''tv''\<rparr>,
      \<lparr>broadcaster.id = 3, broadcaster.name = ''Prime'', url = ''https://p.example'', type = Some ''streaming''\<rparr>,
      \<lparr>broadcaster.id = 4, broadcaster.name = ''Radio'', url = ''https://r.example'', type = Some ''radio''\<rparr>]"

definition ex_row :: "int list option \<Rightarrow> event" where
  "ex_row ids = \<lparr>event.id = 4, event.sport_id = Some 20, competition = Some ''WTA Tour'',
     date = ''2024-05-01'', time = None, event_detail_1 = None, event_detail_2 = None,
     broadcaster_ids = ids, start_at = None\<rparr>"

definition ex_event :: enriched_event where
  "ex_event = enrich (broadcasterMap_of (Some ex_broadcasters)) (ex_row (Some [1, 3, 4, 2]))"

text \<open>
  A host for the examples. Its \<open>toLowerCase\<close> lowers the letters A to Z and its
  \<open>localeCompare\<close> is the order of the code units; on the names of the examples (letters
  A to Z, every name with a capital initial) both agree with the functions of the
  script's host.
\<close>

definition ascii_lower_char :: "char \<Rightarrow> char" where
  "ascii_lower_char c =
     (case map_of (zip ''ABCDEFGHIJKLMNOPQRSTUVWXYZ'' ''abcdefghijklmnopqrstuvwxyz'') c of
        None \<Rightarrow> c | Some l \<Rightarrow> l)"

definition ascii_lower :: "string \<Rightarrow> string" where
  "ascii_lower s = map ascii_lower_char s"

fun codeUnitCompare :: "string \<Rightarrow> string \<Rightarrow> int" where
  "codeUnitCompare [] [] = 0"
| "codeUnitCompare [] (y # ys) = - 1"
| "codeUnitCompare (x # xs) [] = 1"
| "codeUnitCompare (x # xs) (y # ys) =
     (if (of_char x :: nat) < of_char y then - 1
      else if (of_char y :: nat) < of_char x then 1
      else codeUnitCompare xs ys)"

definition ex_host :: host where
  "ex_host = \<lparr>toLowerCase = ascii_lower, localeCompare = codeUnitCompare,
     formatDate = (\<lambda>s. s)\<rparr>"

definition ex_time :: "nat \<Rightarrow> nat \<Rightarrow> nat \<Rightarrow> nat \<Rightarrow> nat \<Rightarrow> civil_time" where
  "ex_time y m d h mi = \<lparr>year = y, month = m, day = d, hour = h, minute = mi, second = 0\<rparr>"

definition ex_users :: "(string \<times> enriched_event event_set) list" where
  "ex_users = map (\<lambda>u. (u, [(0, ex_atp)]))
     [''a'', ''b'', ''c'', ''d'', ''e'', ''f'', ''g'', ''h'', ''i'', ''j'', ''k'', ''l'']"

definition ex_emails :: "string \<rightharpoonup> string option" where
  "ex_emails u = Some (Some (u @ ''@b.com''))"

definition ex_env :: environment where
  "ex_env = \<lparr>SENDGRID_API_KEY = Some ''SG.key'', SUPABASE_URL = Some ''https://db.example'',
     SUPABASE_SERVICE_ROLE_KEY = Some ''role''\<rparr>"

definition ex_store :: "event response \<Rightarrow> alert response \<Rightarrow> db" where
  "ex_store events alerts =
     \<lparr>sportsRes = \<lparr>data = None, error = Some ''down''\<rparr>,
      eventsRes = (\<lambda>d. events),
      broadcastersRes = \<lparr>data = Some [], error = None\<rparr>,
      teamsRes = \<lparr>data = None, error = Some ''down''\<rparr>,
      alertsRes = alerts,
      usersRes = \<lparr>data = Some [\<lparr>user.id = ''U1'', email = Some ''a@b.com''\<rparr>], error = None\<rparr>\<rparr>"

section \<open>Properties\<close>

subsection \<open>The map of event sets\<close>

lemma map_fst_add_to: "map fst (add_to k x m) = map fst m"
  by (induction m) auto

lemma map_of_add_to:
  "map_of (add_to k x m) k' =
     (if k' = k then map_option (set_add x) (map_of m k) else map_of m k')"
  by (induction m) auto

lemma events_of_add_to:
  "events_of u' (add_to u x (if \<not> map_has m u then m @ [(u, [])] else m)) =
     (if u' = u then set_add x (events_of u m) else events_of u' m)"
proof (cases "map_has m u")
  case True
  then obtain s where "map_of m u = Some s"
    by (auto simp: map_has_def dest!: weak_map_of_SomeI)
  with True show ?thesis
    by (simp add: events_of_def map_of_add_to)
next
  case False
  then have "map_of m u = None"
    by (simp add: map_has_def map_of_eq_None_iff)
  with False show ?thesis
    by (auto simp: events_of_def map_of_add_to map_add_def split: option.splits)
qed

lemma events_of_on_alert:
  "events_of u (on_alert h tm ev a m) =
     (if alert.sport_id a = event.sport_id (snd ev) \<and> match_alert h tm (snd ev) a \<and> user_id a = u
      then set_add ev (events_of u m) else events_of u m)"
  using events_of_add_to [where u' = u and m = m and u = "user_id a" and x = ev]
  by (auto simp: on_alert_def)

lemma events_of_Nil: "events_of u [] = []"
  by (simp add: events_of_def)

lemma set_set_add: "set (set_add x s) = insert x (set s)"
  by (auto simp: set_add_def)

lemma distinct_set_add: "distinct s \<Longrightarrow> distinct (set_add x s)"
  by (simp add: set_add_def)

lemma set_events_of_alerts:
  "set (events_of u (fold (on_alert h tm ev) alerts m)) =
     set (events_of u m) \<union>
     {x. x = ev \<and> (\<exists>a\<in>set alerts. user_id a = u \<and> alert.sport_id a = event.sport_id (snd ev)
                    \<and> match_alert h tm (snd ev) a)}"
  by (induction alerts arbitrary: m) (auto simp: events_of_on_alert set_set_add)

lemma set_events_of_events:
  "set (events_of u (fold (\<lambda>ev m. fold (on_alert h tm ev) alerts m) evs m)) =
     set (events_of u m) \<union>
     {x \<in> set evs. \<exists>a\<in>set alerts. user_id a = u \<and> alert.sport_id a = event.sport_id (snd x)
                    \<and> match_alert h tm (snd x) a}"
  by (induction evs arbitrary: m) (auto simp: set_events_of_alerts)

lemma mem_match_users:
  "x \<in> set (events_of u (match_users h tm events alerts)) \<longleftrightarrow>
     x \<in> set (enumerate 0 events) \<and>
     (\<exists>a\<in>set alerts. user_id a = u \<and> alert.sport_id a = event.sport_id (snd x)
        \<and> match_alert h tm (snd x) a)"
  by (auto simp: match_users_def set_events_of_events events_of_Nil)

lemma distinct_events_of_alerts:
  "distinct (events_of u m) \<Longrightarrow> distinct (events_of u (fold (on_alert h tm ev) alerts m))"
  by (induction alerts arbitrary: m) (auto simp: events_of_on_alert distinct_set_add)

lemma distinct_events_of_events:
  "distinct (events_of u m) \<Longrightarrow>
   distinct (events_of u (fold (\<lambda>ev m. fold (on_alert h tm ev) alerts m) evs m))"
  by (induction evs arbitrary: m) (auto simp: distinct_events_of_alerts)

lemma distinct_events_of_match_users: "distinct (events_of u (match_users h tm events alerts))"
  by (simp add: match_users_def distinct_events_of_events events_of_Nil)


lemma nonempty_add_to:
  "distinct (map fst m) \<Longrightarrow> \<forall>p\<in>set m. fst p \<noteq> u \<longrightarrow> snd p \<noteq> [] \<Longrightarrow>
   \<forall>p\<in>set (add_to u x m). snd p \<noteq> []"
proof (induction m)
  case Nil
  then show ?case by simp
next
  case (Cons p m)
  obtain k s where p: "p = (k, s)" by (cases p)
  show ?case
  proof (cases "k = u")
    case True
    with Cons.prems p have "\<forall>q\<in>set m. fst q \<noteq> u" by force
    with Cons.prems True p show ?thesis by (auto simp: set_add_def)
  next
    case False
    with Cons p show ?thesis by auto
  qed
qed

lemma invariant_on_alert:
  assumes "distinct (map fst m)" and "\<forall>p\<in>set m. snd p \<noteq> []"
  shows "distinct (map fst (on_alert h tm ev a m)) \<and> (\<forall>p\<in>set (on_alert h tm ev a m). snd p \<noteq> [])"
proof -
  let ?u = "user_id a"
  let ?m' = "if \<not> map_has m ?u then m @ [(?u, [])] else m"
  have d: "distinct (map fst ?m')"
    using assms(1) by (auto simp: map_has_def)
  have n: "\<forall>p\<in>set ?m'. fst p \<noteq> ?u \<longrightarrow> snd p \<noteq> []"
    using assms(2) by auto
  have "distinct (map fst (add_to ?u ev ?m'))"
    using d by (simp only: map_fst_add_to)
  moreover have "\<forall>p\<in>set (add_to ?u ev ?m'). snd p \<noteq> []"
    using d n by (rule nonempty_add_to)
  ultimately show ?thesis
    using assms unfolding on_alert_def by (simp del: add_to.simps)
qed

lemma invariant_alerts:
  "distinct (map fst m) \<and> (\<forall>p\<in>set m. snd p \<noteq> []) \<Longrightarrow>
   distinct (map fst (fold (on_alert h tm ev) alerts m))
   \<and> (\<forall>p\<in>set (fold (on_alert h tm ev) alerts m). snd p \<noteq> [])"
proof (induction alerts arbitrary: m)
  case Nil
  then show ?case by simp
next
  case (Cons a alerts)
  have "distinct (map fst (on_alert h tm ev a m)) \<and> (\<forall>p\<in>set (on_alert h tm ev a m). snd p \<noteq> [])"
    using Cons.prems by (intro invariant_on_alert) auto
  then show ?case
    using Cons.IH [of "on_alert h tm ev a m"] by simp
qed

lemma invariant_events:
  "distinct (map fst m) \<and> (\<forall>p\<in>set m. snd p \<noteq> []) \<Longrightarrow>
   distinct (map fst (fold (\<lambda>ev m. fold (on_alert h tm ev) alerts m) evs m))
   \<and> (\<forall>p\<in>set (fold (\<lambda>ev m. fold (on_alert h tm ev) alerts m) evs m). snd p \<noteq> [])"
proof (induction evs arbitrary: m)
  case Nil
  then show ?case by simp
next
  case (Cons ev evs)
  show ?case
    using Cons.IH [OF invariant_alerts [OF Cons.prems, of h tm ev alerts]] by simp
qed

lemma invariant_match_users:
  "distinct (map fst (match_users h tm events alerts))
   \<and> (\<forall>p\<in>set (match_users h tm events alerts). snd p \<noteq> [])"
  unfolding match_users_def by (rule invariant_events) simp

lemma events_of_entry: "distinct (map fst m) \<Longrightarrow> (u, s) \<in> set m \<Longrightarrow> events_of u m = s"
  by (simp add: events_of_def)

lemma mset_insort_cmp: "mset (insort_cmp c x ys) = add_mset x (mset ys)"
  by (induction ys) auto

lemma mset_js_sort: "mset (js_sort c xs) = mset xs"
  by (induction xs) (auto simp: js_sort_def mset_insort_cmp)

lemma set_js_sort: "set (js_sort c xs) = set xs"
  using mset_js_sort [of c xs] by (metis set_mset_mset)

lemma distinct_map_js_sort: "distinct (map f (js_sort c xs)) = distinct (map f xs)"
proof -
  have "mset (map f (js_sort c xs)) = mset (map f xs)"
    using mset_js_sort [of c xs] by (metis mset_map)
  then show ?thesis by (rule mset_eq_imp_distinct_iff)
qed

lemma set_insort_cmp: "set (insort_cmp c x ys) = insert x (set ys)"
  using mset_insort_cmp [of c x ys] by (metis set_mset_mset set_mset_add_mset_insert)

lemma sorted_insort_cmp:
  assumes total: "\<And>a b. c a b \<le> 0 \<or> c b a \<le> 0"
    and trans: "\<And>a b d. c a b \<le> 0 \<Longrightarrow> c b d \<le> 0 \<Longrightarrow> c a d \<le> 0"
  shows "sorted_wrt (\<lambda>a b. c a b \<le> 0) ys \<Longrightarrow> sorted_wrt (\<lambda>a b. c a b \<le> 0) (insort_cmp c x ys)"
proof (induction ys)
  case Nil
  then show ?case by simp
next
  case (Cons y ys)
  show ?case
  proof (cases "c x y \<le> 0")
    case True
    with Cons.prems trans show ?thesis by auto
  next
    case False
    with total have "c y x \<le> 0" by blast
    with False Cons show ?thesis by (auto simp: set_insort_cmp)
  qed
qed

lemma sorted_js_sort:
  assumes "\<And>a b. c a b \<le> 0 \<or> c b a \<le> 0"
    and "\<And>a b d. c a b \<le> 0 \<Longrightarrow> c b d \<le> 0 \<Longrightarrow> c a d \<le> 0"
  shows "sorted_wrt (\<lambda>a b. c a b \<le> 0) (js_sort c xs)"
proof (induction xs)
  case Nil
  then show ?case by (simp add: js_sort_def)
next
  case (Cons x xs)
  have "js_sort c (x # xs) = insort_cmp c x (js_sort c xs)"
    by (simp add: js_sort_def)
  with Cons sorted_insort_cmp [of c, OF assms] show ?case by simp
qed

subsection \<open>The team lookup and the two branches of the match\<close>

lemma teamsMap_of_None: "teamsMap_of h d k = None \<longleftrightarrow> k \<notin> team.id ` set (or_empty d)"
  by (simp add: teamsMap_of_def fromEntries_def map_of_eq_None_iff image_image)

lemma teamsMap_of_Some:
  assumes "distinct (map team.id (or_empty d))" and "t \<in> set (or_empty d)"
  shows "teamsMap_of h d (team.id t) = Some (toLowerCase h (team.name t))"
proof -
  let ?kvs = "map (\<lambda>t. (team.id t, toLowerCase h (team.name t))) (or_empty d)"
  have "distinct (map fst (rev ?kvs))"
    using assms(1) by (simp add: rev_map [symmetric] comp_def distinct_rev)
  moreover have "(team.id t, toLowerCase h (team.name t)) \<in> set (rev ?kvs)"
    using assms(2) by auto
  ultimately show ?thesis
    unfolding teamsMap_of_def fromEntries_def by (rule map_of_is_SomeI)
qed

lemma on_alert_empty:
  "alert.sport_id a = event.sport_id (snd x) \<Longrightarrow>
   on_alert h tm x a [] = [(user_id a, [x])] \<longleftrightarrow> match_alert h tm (snd x) a"
  by (simp add: on_alert_def map_has_def set_add_def)

lemma match_alert_tennis:
  "event.sport_id e = Some 20 \<Longrightarrow>
   match_alert h tm e a \<longleftrightarrow> league_id a = Some 0 \<or> spec_tennis_rule e a"
  by (auto simp: match_alert_def falsy_num_def league_code_def spec_tennis_rule_def)

lemma match_alert_generic:
  "event.sport_id e \<noteq> Some 20 \<Longrightarrow>
   match_alert h tm e a \<longleftrightarrow>
     team_id a = None \<or> team_id a = Some 0
     \<or> (\<exists>k. team_id a = Some k
           \<and> (tm k = map_option (toLowerCase h) (event_detail_1 e)
              \<or> tm k = map_option (toLowerCase h) (event_detail_2 e)))"
  by (cases "team_id a") (auto simp: match_alert_def falsy_num_def)

lemma match_alert_team:
  assumes "event.sport_id e \<noteq> Some 20"
    and "distinct (map team.id teams)"
    and "event_detail_1 e = None \<or> event_detail_2 e = None \<longrightarrow>
         team_id a = None \<or> team_id a = Some 0 \<or> (\<exists>t\<in>set teams. team_id a = Some (team.id t))"
  shows "match_alert h (teamsMap_of h (Some teams)) e a \<longleftrightarrow> team_id a = Some 0 \<or> spec_team_rule h teams e a"
proof (cases "team_id a = None \<or> team_id a = Some 0")
  case True
  then have "match_alert h (teamsMap_of h (Some teams)) e a"
    unfolding match_alert_generic [OF assms(1)] by blast
  moreover have "team_id a = Some 0 \<or> spec_team_rule h teams e a"
    using True by (auto simp: spec_team_rule_def)
  ultimately show ?thesis by simp
next
  case False
  then obtain k where k: "team_id a = Some k" "k \<noteq> 0" by auto
  have m: "match_alert h (teamsMap_of h (Some teams)) e a \<longleftrightarrow>
      teamsMap_of h (Some teams) k = map_option (toLowerCase h) (event_detail_1 e)
      \<or> teamsMap_of h (Some teams) k = map_option (toLowerCase h) (event_detail_2 e)"
    using assms(1) k by (simp add: match_alert_generic)
  show ?thesis
  proof (cases "\<exists>t\<in>set teams. team.id t = k")
    case True
    then obtain t where t: "t \<in> set teams" "team.id t = k" by auto
    have look: "teamsMap_of h (Some teams) k = Some (toLowerCase h (team.name t))"
      using teamsMap_of_Some [of "Some teams" t] assms(2) t by (simp add: or_empty_def)
    have "inj_on team.id (set teams)"
      using assms(2) by (simp add: distinct_map)
    then have uniq: "t' = t" if "t' \<in> set teams" "team.id t' = k" for t'
      using that t by (simp add: inj_on_def)
    have "spec_team_rule h teams e a \<longleftrightarrow>
        (\<exists>t'\<in>set teams. team.id t' = k
            \<and> (\<exists>s\<in>set_option (event_detail_1 e) \<union> set_option (event_detail_2 e).
                  toLowerCase h (team.name t') = toLowerCase h s))"
      unfolding spec_team_rule_def using k by auto
    also have "\<dots> \<longleftrightarrow> (\<exists>s\<in>set_option (event_detail_1 e) \<union> set_option (event_detail_2 e).
           toLowerCase h (team.name t) = toLowerCase h s)"
      using t uniq by blast
    also have "\<dots> \<longleftrightarrow> Some (toLowerCase h (team.name t)) = map_option (toLowerCase h) (event_detail_1 e)
        \<or> Some (toLowerCase h (team.name t)) = map_option (toLowerCase h) (event_detail_2 e)"
      by (cases "event_detail_1 e"; cases "event_detail_2 e") auto
    finally show ?thesis
      using k m look by simp
  next
    case False
    then have look: "teamsMap_of h (Some teams) k = None"
      by (auto simp: teamsMap_of_None or_empty_def)
    from False k assms(3) have "event_detail_1 e \<noteq> None" "event_detail_2 e \<noteq> None"
      by auto
    then have "\<not> match_alert h (teamsMap_of h (Some teams)) e a"
      using m look by simp
    moreover have "\<not> spec_team_rule h teams e a"
      using False k by (auto simp: spec_team_rule_def)
    ultimately show ?thesis
      using k by simp
  qed
qed

subsection \<open>Matcher: the tennis branch\<close>

text \<open>
  Claim C1, as the script decides it. For a tennis event (sport 20) and an alert of the
  same sport, the loop body adds the event to the set of the alert's user exactly when
  the alert's \<open>league_id\<close> is \<open>0\<close> or the tennis rule of the specification holds: the
  \<open>league_id\<close> is absent, or is \<open>1\<close> and the competition is "ATP Tour", or is \<open>22\<close> and the
  competition is "WTA Tour". After the whole pass, the event is in the set of a user
  exactly when one of the user's alerts for sport 20 passes that test. So any other
  non-zero \<open>league_id\<close> matches no tennis event.
\<close>

theorem tennis_match:
  assumes "event.sport_id (snd x) = Some 20"
  shows "(alert.sport_id a = event.sport_id (snd x) \<longrightarrow>
          (on_alert h tm x a [] = [(user_id a, [x])] \<longleftrightarrow>
             league_id a = Some 0 \<or> spec_tennis_rule (snd x) a))
       \<and> (x \<in> set (enumerate 0 events) \<longrightarrow>
          (x \<in> set (events_of u (match_users h tm events alerts)) \<longleftrightarrow>
             (\<exists>a\<in>set alerts. user_id a = u \<and> alert.sport_id a = Some 20
                \<and> (league_id a = Some 0 \<or> spec_tennis_rule (snd x) a))))"
proof -
  have "x \<in> set (events_of u (match_users h tm events alerts)) \<longleftrightarrow>
      (\<exists>a\<in>set alerts. user_id a = u \<and> alert.sport_id a = Some 20 \<and> match_alert h tm (snd x) a)"
    if "x \<in> set (enumerate 0 events)"
    using that assms by (auto simp: mem_match_users)
  then show ?thesis
    using assms by (simp add: match_alert_tennis on_alert_empty)
qed

theorem tennis_match_witness:
  "event.sport_id ex_atp = Some 20
   \<and> on_alert ex_host Map.empty (0, ex_atp) (ex_alert ''U1'' 20 (Some 1) None) [] = [(''U1'', [(0, ex_atp)])]
   \<and> on_alert ex_host Map.empty (0, ex_atp) (ex_alert ''U1'' 20 (Some 22) None) [] \<noteq> [(''U1'', [(0, ex_atp)])]
   \<and> (0, ex_atp) \<in> set (events_of ''U1''
        (match_users ex_host Map.empty [ex_atp] [ex_alert ''U2'' 20 (Some 22) None, ex_alert ''U1'' 20 None None]))"
  using tennis_match [where x = "(0, ex_atp)" and a = "ex_alert ''U1'' 20 (Some 1) None"
      and h = ex_host and tm = Map.empty and events = "[ex_atp]" and u = "''U1''"
      and alerts = "[ex_alert ''U2'' 20 (Some 22) None, ex_alert ''U1'' 20 None None]"]
    tennis_match [where x = "(0, ex_atp)" and a = "ex_alert ''U1'' 20 (Some 22) None"
      and h = ex_host and tm = Map.empty and events = "[ex_atp]" and u = "''U1''" and alerts = "[]"]
  by (simp add: ex_atp_def ex_alert_def spec_tennis_rule_def)

text \<open>
  The claim as written says that a \<open>league_id\<close> other than the two codes matches no
  tennis event. An alert with \<open>league_id = 0\<close> has a league value that is neither code,
  the tennis rule of the specification rejects it, and the script matches it with an
  "ATP Tour" event: \<open>!alert.league_id\<close> holds for \<open>0\<close>.
\<close>

theorem tennis_league_zero_counterexample:
  "event.sport_id ex_atp = Some 20
   \<and> alert.sport_id (ex_alert ''U1'' 20 (Some 0) None) = event.sport_id ex_atp
   \<and> \<not> spec_tennis_rule ex_atp (ex_alert ''U1'' 20 (Some 0) None)
   \<and> match_alert ex_host Map.empty ex_atp (ex_alert ''U1'' 20 (Some 0) None)
   \<and> match_users ex_host Map.empty [ex_atp] [ex_alert ''U1'' 20 (Some 0) None] = [(''U1'', [(0, ex_atp)])]"
  by (simp add: ex_atp_def ex_alert_def match_alert_def falsy_num_def league_code_def
      spec_tennis_rule_def match_users_def on_alert_def map_has_def set_add_def enumerate_eq_zip)

subsection \<open>Matcher: the branch of the other sports\<close>

text \<open>
  Claim C2, as the script decides it by design, for every \<open>toLowerCase\<close> of the host. For
  an event of another sport and an alert of the same sport, outside the inputs where a
  lookup miss meets an absent detail field, the loop body adds the event to the set of
  the alert's user exactly when the
  alert's \<open>team_id\<close> is \<open>0\<close> or the team rule of the specification holds: the \<open>team_id\<close> is
  absent, or it is the identifier of a known team whose lowercased name is the
  lowercased value of \<open>event_detail_1\<close> or \<open>event_detail_2\<close>. In particular a non-zero
  \<open>team_id\<close> that is the identifier of no team matches no event whose two detail fields
  are present. After the whole pass, the event is in the set of a user exactly when one
  of the user's alerts for the sport of the event passes that test, provided none of
  these alerts is such a lookup miss; the alerts of other users and of other sports do
  not matter. Team identifiers are taken to be unique.
\<close>

theorem generic_match:
  assumes "event.sport_id (snd x) \<noteq> Some 20"
    and "distinct (map team.id teams)"
  shows "(alert.sport_id a = event.sport_id (snd x) \<longrightarrow>
          \<not> lookup_miss_on_absent_detail teams (snd x) a \<longrightarrow>
          (on_alert h (teamsMap_of h (Some teams)) x a [] = [(user_id a, [x])] \<longleftrightarrow>
             team_id a = Some 0 \<or> spec_team_rule h teams (snd x) a))
       \<and> (x \<in> set (enumerate 0 events) \<longrightarrow>
          (\<forall>a\<in>set alerts. user_id a = u \<and> alert.sport_id a = event.sport_id (snd x) \<longrightarrow>
             \<not> lookup_miss_on_absent_detail teams (snd x) a) \<longrightarrow>
          (x \<in> set (events_of u (match_users h (teamsMap_of h (Some teams)) events alerts)) \<longleftrightarrow>
             (\<exists>a\<in>set alerts. user_id a = u \<and> alert.sport_id a = event.sport_id (snd x)
                \<and> (team_id a = Some 0 \<or> spec_team_rule h teams (snd x) a))))"
proof -
  have rule: "match_alert h (teamsMap_of h (Some teams)) (snd x) a \<longleftrightarrow>
      team_id a = Some 0 \<or> spec_team_rule h teams (snd x) a"
    if "\<not> lookup_miss_on_absent_detail teams (snd x) a" for a
  proof (rule match_alert_team [OF assms])
    show "event_detail_1 (snd x) = None \<or> event_detail_2 (snd x) = None \<longrightarrow>
        team_id a = None \<or> team_id a = Some 0 \<or> (\<exists>t\<in>set teams. team_id a = Some (team.id t))"
      using that unfolding lookup_miss_on_absent_detail_def by (cases "team_id a") auto
  qed
  have one: "on_alert h (teamsMap_of h (Some teams)) x a [] = [(user_id a, [x])] \<longleftrightarrow>
      team_id a = Some 0 \<or> spec_team_rule h teams (snd x) a"
    if "alert.sport_id a = event.sport_id (snd x)" "\<not> lookup_miss_on_absent_detail teams (snd x) a"
    using that by (simp add: on_alert_empty rule)
  have all: "x \<in> set (events_of u (match_users h (teamsMap_of h (Some teams)) events alerts)) \<longleftrightarrow>
      (\<exists>a\<in>set alerts. user_id a = u \<and> alert.sport_id a = event.sport_id (snd x)
         \<and> (team_id a = Some 0 \<or> spec_team_rule h teams (snd x) a))"
    if "x \<in> set (enumerate 0 events)"
      "\<forall>a\<in>set alerts. user_id a = u \<and> alert.sport_id a = event.sport_id (snd x) \<longrightarrow>
         \<not> lookup_miss_on_absent_detail teams (snd x) a"
    unfolding mem_match_users using that rule by blast
  from one all show ?thesis by blast
qed

theorem generic_match_witness:
  "event.sport_id ex_derby \<noteq> Some 20 \<and> distinct (map team.id ex_teams)
   \<and> \<not> lookup_miss_on_absent_detail ex_teams ex_derby (ex_alert ''U1'' 1 None (Some 7))
   \<and> on_alert ex_host (teamsMap_of ex_host (Some ex_teams)) (0, ex_derby)
        (ex_alert ''U1'' 1 None (Some 7)) []
       = [(''U1'', [(0, ex_derby)])]
   \<and> \<not> lookup_miss_on_absent_detail ex_teams ex_derby (ex_alert ''U2'' 1 None (Some 9))
   \<and> (0, ex_derby) \<notin> set (events_of ''U2''
        (match_users ex_host (teamsMap_of ex_host (Some ex_teams)) [ex_derby]
           [ex_alert ''U2'' 1 None (Some 9)]))
   \<and> event.sport_id ex_game \<noteq> Some 20
   \<and> lookup_miss_on_absent_detail ex_teams ex_game (ex_alert ''U3'' 1 None (Some 9))
   \<and> (0, ex_game) \<in> set (events_of ''U1''
        (match_users ex_host (teamsMap_of ex_host (Some ex_teams)) [ex_game]
           [ex_alert ''U3'' 1 None (Some 9), ex_alert ''U1'' 1 None (Some 7)]))"
  using generic_match [where x = "(0, ex_derby)" and teams = ex_teams and h = ex_host
      and a = "ex_alert ''U1'' 1 None (Some 7)" and events = "[ex_derby]" and u = "''U2''"
      and alerts = "[ex_alert ''U2'' 1 None (Some 9)]"]
    generic_match [where x = "(0, ex_game)" and teams = ex_teams and h = ex_host
      and a = "ex_alert ''U1'' 1 None (Some 7)" and events = "[ex_game]" and u = "''U1''"
      and alerts = "[ex_alert ''U3'' 1 None (Some 9), ex_alert ''U1'' 1 None (Some 7)]"]
  by (simp add: ex_derby_def ex_game_def ex_teams_def ex_alert_def spec_team_rule_def
      lookup_miss_on_absent_detail_def ex_host_def ascii_lower_def ascii_lower_char_def)

text \<open>
  The claim as written fails in two ways. An alert whose \<open>team_id\<close> is \<open>9\<close>, the
  identifier of no team, is matched with an event whose second detail field is absent:
  the lookup and the absent field both give \<open>undefined\<close>, and \<open>includes\<close> finds it. And an
  alert with \<open>team_id = 0\<close> is matched with any event of its sport, since \<open>!alert.team_id\<close>
  holds for \<open>0\<close>.
\<close>

theorem generic_match_counterexample:
  "event.sport_id ex_game \<noteq> Some 20
   \<and> alert.sport_id (ex_alert ''U1'' 1 None (Some 9)) = event.sport_id ex_game
   \<and> teamsMap_of ex_host (Some ex_teams) 9 = None
   \<and> \<not> spec_team_rule ex_host ex_teams ex_game (ex_alert ''U1'' 1 None (Some 9))
   \<and> match_users ex_host (teamsMap_of ex_host (Some ex_teams)) [ex_game] [ex_alert ''U1'' 1 None (Some 9)]
       = [(''U1'', [(0, ex_game)])]
   \<and> alert.sport_id (ex_alert ''U1'' 1 None (Some 0)) = event.sport_id ex_derby
   \<and> \<not> spec_team_rule ex_host ex_teams ex_derby (ex_alert ''U1'' 1 None (Some 0))
   \<and> match_users ex_host (teamsMap_of ex_host (Some ex_teams)) [ex_derby] [ex_alert ''U1'' 1 None (Some 0)]
       = [(''U1'', [(0, ex_derby)])]"
  by (simp add: ex_game_def ex_derby_def ex_teams_def ex_alert_def spec_team_rule_def
      teamsMap_of_def fromEntries_def or_empty_def match_alert_def falsy_num_def
      match_users_def on_alert_def map_has_def set_add_def enumerate_eq_zip)

subsection \<open>Matcher: alerts of another sport\<close>

text \<open>
  Claim C3. When the \<open>sport_id\<close> of the alert differs from that of the event, the loop
  body leaves the map as it is, whatever the other fields are; and an event is never in
  the set of a user all of whose alerts are for other sports.
\<close>

theorem sport_mismatch:
  "(alert.sport_id a \<noteq> event.sport_id (snd x) \<longrightarrow> on_alert h tm x a m = m)
   \<and> ((\<forall>a\<in>set alerts. user_id a = u \<longrightarrow> alert.sport_id a \<noteq> event.sport_id (snd x)) \<longrightarrow>
        x \<notin> set (events_of u (match_users h tm events alerts)))"
  by (auto simp: on_alert_def mem_match_users)

theorem sport_mismatch_witness:
  "alert.sport_id (ex_alert ''U1'' 1 None None) \<noteq> event.sport_id ex_atp
   \<and> on_alert ex_host Map.empty (0, ex_atp) (ex_alert ''U1'' 1 None None) [] = []
   \<and> (0, ex_atp) \<notin> set (events_of ''U1''
        (match_users ex_host Map.empty [ex_atp] [ex_alert ''U1'' 1 None None, ex_alert ''U2'' 20 None None]))"
  using sport_mismatch [where a = "ex_alert ''U1'' 1 None None" and x = "(0, ex_atp)"
      and h = ex_host and tm = Map.empty and m = "[]" and u = "''U1''" and events = "[ex_atp]"
      and alerts = "[ex_alert ''U1'' 1 None None, ex_alert ''U2'' 20 None None]"]
  by (simp add: ex_atp_def ex_alert_def)

subsection \<open>Matcher: the event sets\<close>

lemma count_list_distinct: "distinct xs \<Longrightarrow> count_list xs x = (if x \<in> set xs then 1 else 0)"
  by (induction xs) auto

lemma in_set_map_fst: "i \<in> set (map fst xs) \<longleftrightarrow> (\<exists>e. (i, e) \<in> set xs)"
  by (induction xs) auto

lemma distinct_ids_match_users:
  "distinct (map fst (events_of u (match_users h tm events alerts)))"
proof -
  let ?s = "events_of u (match_users h tm events alerts)"
  have "set ?s \<subseteq> set (enumerate 0 events)"
    using mem_match_users [where u = u and h = h and tm = tm and events = events and alerts = alerts]
    by blast
  moreover have "inj_on fst (set (enumerate 0 events))"
  proof -
    have "distinct (map fst (enumerate 0 events))"
      by (simp add: map_fst_enumerate)
    then show ?thesis
      unfolding distinct_map by (rule conjunct2)
  qed
  ultimately have "inj_on fst (set ?s)"
    by (rule inj_on_subset [rotated])
  then show ?thesis
    using distinct_events_of_match_users [of u h tm events alerts] by (simp add: distinct_map)
qed

lemma ids_match_users:
  "i \<in> set (map fst (events_of u (match_users h tm events alerts))) \<longleftrightarrow>
     i < length events \<and> qualifies h tm alerts u (events ! i)"
proof -
  have "i \<in> set (map fst (events_of u (match_users h tm events alerts))) \<longleftrightarrow>
      (\<exists>e. (i, e) \<in> set (events_of u (match_users h tm events alerts)))"
    by (rule in_set_map_fst)
  also have "\<dots> \<longleftrightarrow> (\<exists>e. (i, e) \<in> set (enumerate 0 events) \<and> qualifies h tm alerts u e)"
    by (simp add: mem_match_users qualifies_def)
  also have "\<dots> \<longleftrightarrow> i < length events \<and> qualifies h tm alerts u (events ! i)"
    by (auto simp: in_set_enumerate_eq)
  finally show ?thesis .
qed

lemma has_entry_iff:
  "distinct (map fst m) \<Longrightarrow> \<forall>p\<in>set m. snd p \<noteq> [] \<Longrightarrow>
   u \<in> set (map fst m) \<longleftrightarrow> events_of u m \<noteq> []"
proof
  assume "distinct (map fst m)" "\<forall>p\<in>set m. snd p \<noteq> []" "u \<in> set (map fst m)"
  then obtain s where s: "(u, s) \<in> set m" by auto
  with \<open>distinct (map fst m)\<close> have "events_of u m = s" by (rule events_of_entry)
  with s \<open>\<forall>p\<in>set m. snd p \<noteq> []\<close> show "events_of u m \<noteq> []" by auto
next
  assume "events_of u m \<noteq> []"
  then obtain s where "map_of m u = Some s"
    by (auto simp: events_of_def split: option.splits)
  then have "(u, s) \<in> set m" by (rule map_of_SomeD)
  then show "u \<in> set (map fst m)" by force
qed

text \<open>
  Claim C4. Every user has one entry in the output map, and its event set is the set
  the map holds for the user and is not empty; a user has an entry exactly when an
  event of the array qualifies for the user. The event object at position \<open>i\<close> of the
  array \<open>events\<close> occurs exactly once in the set of a user when it qualifies for the user
  (by one alert or by several) and does not occur otherwise; the same holds of the
  sorted list of the digest.
\<close>

theorem event_sets_distinct:
  "distinct (map fst (match_users h tm events alerts))
   \<and> (\<forall>(u, s)\<in>set (match_users h tm events alerts).
        s \<noteq> [] \<and> s = events_of u (match_users h tm events alerts))
   \<and> (\<forall>u. u \<in> set (map fst (match_users h tm events alerts)) \<longleftrightarrow>
        (\<exists>i<length events. qualifies h tm alerts u (events ! i)))
   \<and> (\<forall>u. set (events_of u (match_users h tm events alerts)) \<subseteq> set (enumerate 0 events))
   \<and> (\<forall>u i. count_list (map fst (events_of u (match_users h tm events alerts))) i =
        (if i < length events \<and> qualifies h tm alerts u (events ! i) then 1 else 0))
   \<and> (\<forall>u i. count_list (map fst (sorted_events h (events_of u (match_users h tm events alerts)))) i =
        (if i < length events \<and> qualifies h tm alerts u (events ! i) then 1 else 0))"
proof -
  let ?M = "match_users h tm events alerts"
  have keys: "distinct (map fst ?M)" and nonempty: "\<forall>p\<in>set ?M. snd p \<noteq> []"
    using invariant_match_users [of h tm events alerts] by simp_all
  have c2: "\<forall>(u, s)\<in>set ?M. s \<noteq> [] \<and> s = events_of u ?M"
  proof (intro ballI, clarify)
    fix u s
    assume entry: "(u, s) \<in> set ?M"
    from keys entry have "events_of u ?M = s"
      by (rule events_of_entry)
    moreover from nonempty entry have "s \<noteq> []"
      by auto
    ultimately show "s \<noteq> [] \<and> s = events_of u ?M"
      by simp
  qed
  have count: "count_list (map fst (events_of u ?M)) i =
      (if i < length events \<and> qualifies h tm alerts u (events ! i) then 1 else 0)" for u i
    using count_list_distinct [OF distinct_ids_match_users, of u h tm events alerts i]
    by (simp only: ids_match_users)
  have c3: "\<forall>u. u \<in> set (map fst ?M) \<longleftrightarrow> (\<exists>i<length events. qualifies h tm alerts u (events ! i))"
  proof
    fix u
    have "u \<in> set (map fst ?M) \<longleftrightarrow> events_of u ?M \<noteq> []"
      using keys nonempty by (rule has_entry_iff)
    also have "\<dots> \<longleftrightarrow> (\<exists>i. i \<in> set (map fst (events_of u ?M)))"
      by (cases "events_of u ?M") auto
    also have "\<dots> \<longleftrightarrow> (\<exists>i<length events. qualifies h tm alerts u (events ! i))"
      by (simp only: ids_match_users)
    finally show "u \<in> set (map fst ?M) \<longleftrightarrow> (\<exists>i<length events. qualifies h tm alerts u (events ! i))" .
  qed
  have c4: "\<forall>u. set (events_of u ?M) \<subseteq> set (enumerate 0 events)"
    using mem_match_users [where h = h and tm = tm and events = events and alerts = alerts]
    by blast
  have "count_list (map fst (sorted_events h s)) i = count_list (map fst s) i" for s i
  proof -
    have "mset (sorted_events h s) = mset s"
      unfolding sorted_events_def by (rule mset_js_sort)
    then have "image_mset fst (mset (sorted_events h s)) = image_mset fst (mset s)"
      by simp
    then have "mset (map fst (sorted_events h s)) = mset (map fst s)"
      by simp
    then have "count (mset (map fst (sorted_events h s))) i = count (mset (map fst s)) i"
      by simp
    then show ?thesis
      by (simp only: count_mset)
  qed
  with count have c6: "\<forall>u i. count_list (map fst (sorted_events h (events_of u ?M))) i =
      (if i < length events \<and> qualifies h tm alerts u (events ! i) then 1 else 0)"
    by simp
  have c5: "\<forall>u i. count_list (map fst (events_of u ?M)) i =
      (if i < length events \<and> qualifies h tm alerts u (events ! i) then 1 else 0)"
    using count by blast
  from keys c2 c3 c4 c5 c6 show ?thesis
    by (intro conjI)
qed

theorem event_sets_distinct_witness:
  "match_users ex_host Map.empty [ex_atp, ex_game]
     [ex_alert ''U1'' 20 None None, ex_alert ''U1'' 20 (Some 1) None, ex_alert ''U2'' 1 None None,
      ex_alert ''U1'' 1 None None]
     = [(''U1'', [(0, ex_atp), (1, ex_game)]), (''U2'', [(1, ex_game)])]
   \<and> count_list (map fst (sorted_events ex_host [(0, ex_atp), (1, ex_game)])) 0 = 1
   \<and> count_list (map fst (sorted_events ex_host [(0, ex_atp), (1, ex_game)])) 1 = 1"
proof -
  let ?alerts = "[ex_alert ''U1'' 20 None None, ex_alert ''U1'' 20 (Some 1) None,
      ex_alert ''U2'' 1 None None, ex_alert ''U1'' 1 None None]"
  have M: "match_users ex_host Map.empty [ex_atp, ex_game] ?alerts
      = [(''U1'', [(0, ex_atp), (1, ex_game)]), (''U2'', [(1, ex_game)])]"
    by (simp add: ex_atp_def ex_game_def ex_alert_def match_alert_def falsy_num_def league_code_def
        match_users_def on_alert_def map_has_def set_add_def enumerate_eq_zip)
  have q: "qualifies ex_host Map.empty ?alerts ''U1'' ex_atp"
      "qualifies ex_host Map.empty ?alerts ''U1'' ex_game"
    by (simp_all add: qualifies_def ex_atp_def ex_game_def ex_alert_def match_alert_def
        falsy_num_def league_code_def)
  have e: "events_of ''U1'' [(''U1'', [(0, ex_atp), (1, ex_game)]), (''U2'', [(1, ex_game)])]
      = [(0, ex_atp), (1, ex_game)]"
    by (simp add: events_of_def)
  have "count_list (map fst (sorted_events ex_host
        (events_of ''U1'' (match_users ex_host Map.empty [ex_atp, ex_game] ?alerts)))) i =
      (if i < length [ex_atp, ex_game]
          \<and> qualifies ex_host Map.empty ?alerts ''U1'' ([ex_atp, ex_game] ! i) then 1 else 0)" for i
    using event_sets_distinct [where h = ex_host and tm = Map.empty
        and events = "[ex_atp, ex_game]" and alerts = ?alerts]
    by simp
  from this [of 0] this [of 1] q M show ?thesis
    unfolding M e by simp
qed

subsection \<open>Event enricher\<close>

lemma broadcasterMap_of_Some:
  "broadcasterMap_of d i = Some b \<Longrightarrow> broadcaster.id b = i \<and> b \<in> set (or_empty d)"
  unfolding broadcasterMap_of_def fromEntries_def by (auto dest!: map_of_SomeD)

lemma broadcasterMap_of_None:
  "broadcasterMap_of d i = None \<longleftrightarrow> i \<notin> broadcaster.id ` set (or_empty d)"
  by (simp add: broadcasterMap_of_def fromEntries_def map_of_eq_None_iff image_image)

lemma resolve_concat:
  "map the (filter (\<lambda>b. b \<noteq> None) (map bm ids)) =
     concat (map (\<lambda>i. case bm i of None \<Rightarrow> [] | Some b \<Rightarrow> [b]) ids)"
  by (induction ids) (auto split: option.splits)

lemma resolve_ids:
  "map broadcaster.id (map the (filter (\<lambda>b. b \<noteq> None) (map (broadcasterMap_of d) ids))) =
     filter (\<lambda>i. i \<in> broadcaster.id ` set (or_empty d)) ids"
proof (induction ids)
  case Nil
  then show ?case by simp
next
  case (Cons i ids)
  show ?case
  proof (cases "broadcasterMap_of d i")
    case None
    with Cons show ?thesis
      using broadcasterMap_of_None [of d i] by simp
  next
    case (Some b)
    then have "broadcaster.id b = i" "i \<in> broadcaster.id ` set (or_empty d)"
      using broadcasterMap_of_Some [of d i b] by auto
    with Cons Some show ?thesis by simp
  qed
qed

lemma broadcasters_enrich:
  "broadcasters (enrich bm e) = resolve_broadcasters bm (broadcaster_ids e)"
  by (simp add: enrich_def event.defs)

text \<open>
  Claim C9. The list \<open>broadcasters\<close> of an enriched event holds, in the order of
  \<open>broadcaster_ids\<close>, the record of every listed identifier that the lookup table has, and
  nothing for an identifier that it does not have; it is empty when \<open>broadcaster_ids\<close> is
  absent. With the table built from the rows of the store, the identifiers of the
  result are the listed identifiers that occur in the rows, and every record is a row.
  The function is total: no input makes it fail.
\<close>

theorem enrich_resolves:
  "broadcasters (enrich bm e) =
     concat (map (\<lambda>i. case bm i of None \<Rightarrow> [] | Some b \<Rightarrow> [b]) (or_empty (broadcaster_ids e)))
   \<and> (broadcaster_ids e = None \<longrightarrow> broadcasters (enrich bm e) = [])
   \<and> map broadcaster.id (broadcasters (enrich (broadcasterMap_of d) e)) =
       filter (\<lambda>i. i \<in> broadcaster.id ` set (or_empty d)) (or_empty (broadcaster_ids e))
   \<and> set (broadcasters (enrich (broadcasterMap_of d) e)) \<subseteq> set (or_empty d)"
proof -
  have "set (resolve_broadcasters (broadcasterMap_of d) ids) \<subseteq> set (or_empty d)" for ids
    unfolding resolve_broadcasters_def resolve_concat
    by (auto split: option.splits dest: broadcasterMap_of_Some [OF sym])
  moreover have "resolve_broadcasters bm None = []" for bm :: "int \<rightharpoonup> broadcaster"
    by (simp add: resolve_broadcasters_def or_empty_def)
  moreover have "map broadcaster.id (resolve_broadcasters (broadcasterMap_of d) ids) =
      filter (\<lambda>i. i \<in> broadcaster.id ` set (or_empty d)) (or_empty ids)" for ids
    unfolding resolve_broadcasters_def by (rule resolve_ids)
  moreover have "resolve_broadcasters bm ids =
      concat (map (\<lambda>i. case bm i of None \<Rightarrow> [] | Some b \<Rightarrow> [b]) (or_empty ids))"
    for bm :: "int \<rightharpoonup> broadcaster" and ids
    unfolding resolve_broadcasters_def by (rule resolve_concat)
  ultimately show ?thesis
    unfolding broadcasters_enrich by simp
qed

theorem enrich_resolves_witness:
  "broadcaster_ids (ex_row None) = None
   \<and> broadcasters (enrich (broadcasterMap_of (Some ex_broadcasters)) (ex_row None)) = []
   \<and> map broadcaster.id
        (broadcasters (enrich (broadcasterMap_of (Some ex_broadcasters)) (ex_row (Some [3, 9, 1, 3]))))
       = [3, 1, 3]"
  using enrich_resolves [of "broadcasterMap_of (Some ex_broadcasters)" "ex_row None" "Some ex_broadcasters"]
    enrich_resolves [of "broadcasterMap_of (Some ex_broadcasters)" "ex_row (Some [3, 9, 1, 3])"
      "Some ex_broadcasters"]
  by (simp add: ex_row_def ex_broadcasters_def or_empty_def enrich_def event.defs
      resolve_broadcasters_def broadcasterMap_of_def fromEntries_def)

subsection \<open>Date resolver\<close>

lemma length_digits: "0 < w \<Longrightarrow> n < 10 ^ w \<Longrightarrow> length (digits n) \<le> w"
proof (induction n arbitrary: w rule: digits.induct)
  case (1 n)
  show ?case
  proof (cases "n < 10")
    case True
    with "1.prems" show ?thesis
      by (subst digits.simps) simp
  next
    case False
    obtain v where w: "w = Suc v"
      using "1.prems"(1) by (cases w) auto
    from False "1.prems"(2) have v: "0 < v"
      unfolding w by (cases v) auto
    have "n div 10 < 10 ^ v"
      using "1.prems"(2) unfolding w by (simp add: less_mult_imp_div_less mult.commute)
    with "1.IH" [OF False v] have "length (digits (n div 10)) \<le> v" .
    with False show ?thesis
      unfolding w by (subst digits.simps) simp
  qed
qed

lemma length_padStart: "0 < w \<Longrightarrow> n < 10 ^ w \<Longrightarrow> length (padStart n w) = w"
  using length_digits [of w n] by (simp add: padStart_def)

lemma digit_code: "(of_char (digit n) :: nat) = 48 + n mod 10"
proof -
  have "n mod 10 \<in> {0, 1, 2, 3, 4, 5, 6, 7, 8, 9}"
    by (simp add: insert_iff) arith
  then show ?thesis
    unfolding digit_def by (elim insertE emptyE) simp_all
qed

lemma digit_in_digits: "digit n \<in> set ''0123456789''"
proof -
  have "n mod 10 < length ''0123456789''"
    by simp
  then show ?thesis
    unfolding digit_def by (rule nth_mem)
qed

lemma read_nat_snoc: "read_nat (s @ [c]) = 10 * read_nat s + (of_char c - 48)"
  by (simp add: read_nat_def)

lemma read_nat_digits: "read_nat (digits n) = n"
proof (induction n rule: digits.induct)
  case (1 n)
  show ?case
  proof (cases "n < 10")
    case True
    then show ?thesis
      by (subst digits.simps) (simp add: read_nat_def digit_code)
  next
    case False
    with "1.IH" have "read_nat (digits (n div 10)) = n div 10"
      by simp
    with False show ?thesis
      by (subst digits.simps) (simp add: read_nat_snoc digit_code)
  qed
qed

lemma set_digits: "set (digits n) \<subseteq> set ''0123456789''"
proof (induction n rule: digits.induct)
  case (1 n)
  show ?case
  proof (cases "n < 10")
    case True
    then show ?thesis
      using digit_in_digits [of n] by (subst digits.simps) simp
  next
    case False
    with "1.IH" have "set (digits (n div 10)) \<subseteq> set ''0123456789''"
      by simp
    with False show ?thesis
      using digit_in_digits [of n] by (subst digits.simps) simp
  qed
qed

lemma read_nat_zeros: "read_nat (replicate k CHR ''0'' @ s) = read_nat s"
proof -
  have "foldl (\<lambda>n c. 10 * n + (of_char c - 48)) 0 (replicate k CHR ''0'') = (0::nat)"
    by (induction k) simp_all
  then show ?thesis
    by (simp add: read_nat_def)
qed

lemma read_nat_padStart: "read_nat (padStart n w) = n"
  by (simp add: padStart_def read_nat_zeros read_nat_digits)

lemma set_padStart: "set (padStart n w) \<subseteq> set ''0123456789''"
  using set_digits [of n] by (auto simp: padStart_def)

lemma isLeapYear_gregorian: "isLeapYear y = gregorian_leap y"
proof -
  have "4 dvd y" "100 dvd y" if "400 dvd y"
    using that by (auto elim: dvd_trans [rotated])
  then show ?thesis
    unfolding isLeapYear_def gregorian_leap_def mod_eq_0_iff_dvd by blast
qed

lemma daysInMonth_table:
  assumes "1 \<le> m" and "m \<le> 12"
  shows "daysInMonth y m = month_lengths y ! (m - 1)"
proof -
  have "m \<in> {1, 2, 3, 4, 5, 6, 7, 8, 9, 10, 11, 12}"
    using assms by (simp add: insert_iff) arith
  then show ?thesis
    unfolding daysInMonth_def month_lengths_def isLeapYear_gregorian
    by (elim insertE emptyE) simp_all
qed

lemma daysInMonth_bounds: "28 \<le> daysInMonth y m \<and> daysInMonth y m \<le> 31"
  by (simp add: daysInMonth_def)

lemma calendar_date_iff:
  "calendar_date t \<longleftrightarrow>
     1 \<le> month t \<and> month t \<le> 12 \<and> 1 \<le> day t \<and> day t \<le> daysInMonth (year t) (month t)"
  using daysInMonth_table [of "month t" "year t"] by (auto simp: calendar_date_def)

lemma plus_one_day_next:
  assumes "calendar_date t"
  shows "calendar_date (plus_one_day t)
    \<and> earlier_date t (plus_one_day t)
    \<and> (\<forall>t'. calendar_date t' \<and> earlier_date t t' \<longrightarrow> \<not> earlier_date t' (plus_one_day t))"
proof -
  let ?dim = "daysInMonth (year t) (month t)"
  let ?n = "plus_one_day t"
  from assms have t: "1 \<le> month t" "month t \<le> 12" "1 \<le> day t" "day t \<le> ?dim"
    by (simp_all only: calendar_date_iff)
  consider (day) "day t < ?dim"
    | (month) "day t = ?dim" "month t < 12"
    | (year) "day t = ?dim" "month t = 12"
    using t by linarith
  then show ?thesis
  proof cases
    case day
    then have n: "year ?n = year t" "month ?n = month t" "day ?n = day t + 1"
      by (simp_all add: plus_one_day_def)
    have a: "calendar_date ?n"
      unfolding calendar_date_iff n using t day by simp
    have b: "earlier_date t ?n"
      unfolding earlier_date_def n by simp
    have c: "\<not> earlier_date t' ?n" if "earlier_date t t'" for t'
      using that unfolding earlier_date_def n by arith
    from a b c show ?thesis by blast
  next
    case month
    then have n: "year ?n = year t" "month ?n = month t + 1" "day ?n = 1"
      by (simp_all add: plus_one_day_def)
    have a: "calendar_date ?n"
      unfolding calendar_date_iff n
      using month(2) daysInMonth_bounds [of "year t" "month t + 1"] by simp
    have b: "earlier_date t ?n"
      unfolding earlier_date_def n by simp
    have c: "\<not> earlier_date t' ?n" if "calendar_date t'" "earlier_date t t'" for t'
    proof
      assume "earlier_date t' ?n"
      with that(2) have "year t' = year t \<and> month t' = month t \<and> day t < day t'
          \<or> day t' < 1"
        unfolding earlier_date_def n by arith
      moreover from that(1) have "1 \<le> day t'" "day t' \<le> daysInMonth (year t') (month t')"
        by (simp_all only: calendar_date_iff)
      ultimately show False
        using month(1) by auto
    qed
    from a b c show ?thesis by blast
  next
    case year
    then have n: "year ?n = year t + 1" "month ?n = 1" "day ?n = 1"
      by (simp_all add: plus_one_day_def)
    have dim: "?dim = 31"
      using year(2) by (simp add: daysInMonth_def)
    have a: "calendar_date ?n"
      unfolding calendar_date_iff n
      using daysInMonth_bounds [of "year t + 1" 1] by simp
    have b: "earlier_date t ?n"
      unfolding earlier_date_def n by simp
    have c: "\<not> earlier_date t' ?n" if "calendar_date t'" "earlier_date t t'" for t'
    proof
      assume "earlier_date t' ?n"
      with that(2) have "12 < month t' \<or> month t' < 1 \<or> day t' < 1 \<or> 31 < day t'"
        unfolding earlier_date_def n using year dim by arith
      moreover from that(1) have "1 \<le> month t'" "month t' \<le> 12" "1 \<le> day t'"
          "day t' \<le> daysInMonth (year t') (month t')"
        by (simp_all only: calendar_date_iff)
      ultimately show False
        using daysInMonth_bounds [of "year t'" "month t'"] by linarith
    qed
    from a b c show ?thesis by blast
  qed
qed

lemma year_plus_one_day: "year (plus_one_day t) \<le> year t + 1"
  by (simp add: plus_one_day_def)

lemma toISODate_spells:
  assumes "calendar_date t" and "year t \<le> 9999"
  shows "length (toISODate t) = 10
    \<and> (\<forall>c\<in>set (toISODate t). c = CHR ''-'' \<or> c \<in> set ''0123456789'')
    \<and> toISODate t ! 4 = CHR ''-'' \<and> toISODate t ! 7 = CHR ''-''
    \<and> read_nat (take 4 (toISODate t)) = year t
    \<and> read_nat (take 2 (drop 5 (toISODate t))) = month t
    \<and> read_nat (drop 8 (toISODate t)) = day t"
proof -
  let ?y = "padStart (year t) 4" and ?m = "padStart (month t) 2" and ?d = "padStart (day t) 2"
  have iso: "toISODate t = ?y @ ''-'' @ ?m @ ''-'' @ ?d"
    using assms by (simp add: toISODate_def)
  have "day t \<le> 31"
    using assms(1) daysInMonth_bounds [of "year t" "month t"] by (simp add: calendar_date_iff)
  then have d: "length ?d = 2"
    by (intro length_padStart) simp_all
  have m: "length ?m = 2"
    using assms(1) by (intro length_padStart) (simp_all add: calendar_date_iff)
  have y: "length ?y = 4"
    using assms(2) by (intro length_padStart) simp_all
  have c1: "length (toISODate t) = 10"
    unfolding iso using y m d by simp
  have c2: "\<forall>c\<in>set (toISODate t). c = CHR ''-'' \<or> c \<in> set ''0123456789''"
  proof
    fix c
    assume "c \<in> set (toISODate t)"
    then have "c \<in> set ?y \<or> c \<in> set ''-'' \<or> c \<in> set ?m \<or> c \<in> set ''-'' \<or> c \<in> set ?d"
      unfolding iso by (simp only: set_append Un_iff)
    moreover have "c = CHR ''-''" if "c \<in> set ''-''"
      using that by simp
    ultimately show "c = CHR ''-'' \<or> c \<in> set ''0123456789''"
      using set_padStart [of "year t" 4] set_padStart [of "month t" 2] set_padStart [of "day t" 2]
      by blast
  qed
  have c3: "toISODate t ! 4 = CHR ''-''"
    unfolding iso using y by (simp add: nth_append)
  have c4: "toISODate t ! 7 = CHR ''-''"
    unfolding iso using y m by (simp add: nth_append)
  have "take 4 (toISODate t) = ?y"
    unfolding iso using y by simp
  then have c5: "read_nat (take 4 (toISODate t)) = year t"
    by (simp only: read_nat_padStart)
  have "take 2 (drop 5 (toISODate t)) = ?m"
    unfolding iso using y m by simp
  then have c6: "read_nat (take 2 (drop 5 (toISODate t))) = month t"
    by (simp only: read_nat_padStart)
  have "drop 8 (toISODate t) = ?d"
    unfolding iso using y m by simp
  then have c7: "read_nat (drop 8 (toISODate t)) = day t"
    by (simp only: read_nat_padStart)
  from c1 c2 c3 c4 c5 c6 c7 show ?thesis
    by (intro conjI)
qed

text \<open>
  Claim C5. The target date is a function of the civil time in Paris alone. Before
  6 o'clock it is the date of today, from 6 o'clock on it is the date that
  \<open>plus({ days: 1 })\<close> gives; two instants of the same day on the same side of 6 o'clock
  give the same target date, whatever their minutes and seconds. The date that
  \<open>plus({ days: 1 })\<close> gives is tomorrow: for a date of the Gregorian calendar it is again
  a date of the calendar, it is later than today, and no date of the calendar lies
  between the two. For a date of the calendar in a year before 9999 the result is the
  ISO date of that day: ten characters, digits but for the two hyphens, that spell the
  year, the month and the day.
\<close>

theorem target_date_rule:
  "(hour now < 6 \<longrightarrow> targetDate now = toISODate now)
   \<and> (\<not> hour now < 6 \<longrightarrow> targetDate now = toISODate (plus_one_day now))
   \<and> (year now' = year now \<and> month now' = month now \<and> day now' = day now
        \<and> (hour now' < 6 \<longleftrightarrow> hour now < 6) \<longrightarrow> targetDate now' = targetDate now)
   \<and> (calendar_date now \<longrightarrow>
        calendar_date (plus_one_day now) \<and> earlier_date now (plus_one_day now)
        \<and> (\<forall>t. calendar_date t \<and> earlier_date now t \<longrightarrow> \<not> earlier_date t (plus_one_day now)))
   \<and> (calendar_date now \<and> year now < 9999 \<longrightarrow>
        length (targetDate now) = 10
        \<and> (\<forall>c\<in>set (targetDate now). c = CHR ''-'' \<or> c \<in> set ''0123456789'')
        \<and> targetDate now ! 4 = CHR ''-'' \<and> targetDate now ! 7 = CHR ''-''
        \<and> read_nat (take 4 (targetDate now))
            = year (if hour now < 6 then now else plus_one_day now)
        \<and> read_nat (take 2 (drop 5 (targetDate now)))
            = month (if hour now < 6 then now else plus_one_day now)
        \<and> read_nat (drop 8 (targetDate now))
            = day (if hour now < 6 then now else plus_one_day now))"
proof -
  let ?d = "if hour now < 6 then now else plus_one_day now"
  have target: "targetDate now = toISODate ?d"
    by (simp add: targetDate_def)
  have c12: "(hour now < 6 \<longrightarrow> targetDate now = toISODate now)
      \<and> (\<not> hour now < 6 \<longrightarrow> targetDate now = toISODate (plus_one_day now))"
    by (simp add: targetDate_def)
  have c3: "year now' = year now \<and> month now' = month now \<and> day now' = day now
      \<and> (hour now' < 6 \<longleftrightarrow> hour now < 6) \<longrightarrow> targetDate now' = targetDate now"
    by (auto simp: targetDate_def toISODate_def plus_one_day_def)
  have c4: "calendar_date now \<longrightarrow>
      calendar_date (plus_one_day now) \<and> earlier_date now (plus_one_day now)
      \<and> (\<forall>t. calendar_date t \<and> earlier_date now t \<longrightarrow> \<not> earlier_date t (plus_one_day now))"
    using plus_one_day_next [of now] by blast
  have c5: "calendar_date now \<and> year now < 9999 \<longrightarrow>
      length (targetDate now) = 10
      \<and> (\<forall>c\<in>set (targetDate now). c = CHR ''-'' \<or> c \<in> set ''0123456789'')
      \<and> targetDate now ! 4 = CHR ''-'' \<and> targetDate now ! 7 = CHR ''-''
      \<and> read_nat (take 4 (targetDate now)) = year ?d
      \<and> read_nat (take 2 (drop 5 (targetDate now))) = month ?d
      \<and> read_nat (drop 8 (targetDate now)) = day ?d"
  proof
    assume now: "calendar_date now \<and> year now < 9999"
    then have "calendar_date ?d"
      using plus_one_day_next [of now] by simp
    moreover have "year ?d \<le> 9999"
      using now year_plus_one_day [of now] by simp
    ultimately show "length (targetDate now) = 10
      \<and> (\<forall>c\<in>set (targetDate now). c = CHR ''-'' \<or> c \<in> set ''0123456789'')
      \<and> targetDate now ! 4 = CHR ''-'' \<and> targetDate now ! 7 = CHR ''-''
      \<and> read_nat (take 4 (targetDate now)) = year ?d
      \<and> read_nat (take 2 (drop 5 (targetDate now))) = month ?d
      \<and> read_nat (drop 8 (targetDate now)) = day ?d"
      unfolding target by (rule toISODate_spells)
  qed
  from c12 c3 c4 c5 show ?thesis
    by (intro conjI) (erule conjunct1, erule conjunct2, assumption+)
qed

theorem target_date_rule_witness:
  "targetDate (ex_time 2024 4 30 5 59) = ''2024-04-30''
   \<and> targetDate (ex_time 2024 4 30 6 0) = ''2024-05-01''
   \<and> targetDate (ex_time 2024 2 28 18 0) = ''2024-02-29''
   \<and> targetDate (ex_time 2024 2 29 18 0) = ''2024-03-01''
   \<and> targetDate (ex_time 2023 2 28 18 0) = ''2023-03-01''
   \<and> targetDate (ex_time 2100 2 28 18 0) = ''2100-03-01''
   \<and> targetDate (ex_time 2000 2 28 18 0) = ''2000-02-29''
   \<and> targetDate (ex_time 2024 12 31 23 59) = ''2025-01-01''
   \<and> targetDate (ex_time 2024 4 30 0 0) = targetDate (ex_time 2024 4 30 5 59)
   \<and> targetDate (ex_time 2024 4 30 23 30) = targetDate (ex_time 2024 4 30 6 0)
   \<and> calendar_date (ex_time 2024 2 28 18 0)
   \<and> calendar_date (plus_one_day (ex_time 2024 2 28 18 0))
   \<and> earlier_date (ex_time 2024 2 28 18 0) (plus_one_day (ex_time 2024 2 28 18 0))
   \<and> read_nat (drop 8 (targetDate (ex_time 2024 2 28 18 0))) = 29"
proof -
  note defs = ex_time_def targetDate_def toISODate_def plus_one_day_def daysInMonth_def
    isLeapYear_def padStart_def digit_def digits.simps
  have dates: "targetDate (ex_time 2024 4 30 5 59) = ''2024-04-30''"
      "targetDate (ex_time 2024 4 30 6 0) = ''2024-05-01''"
      "targetDate (ex_time 2024 2 28 18 0) = ''2024-02-29''"
      "targetDate (ex_time 2024 2 29 18 0) = ''2024-03-01''"
      "targetDate (ex_time 2023 2 28 18 0) = ''2023-03-01''"
      "targetDate (ex_time 2100 2 28 18 0) = ''2100-03-01''"
      "targetDate (ex_time 2000 2 28 18 0) = ''2000-02-29''"
      "targetDate (ex_time 2024 12 31 23 59) = ''2025-01-01''"
    by (simp_all add: defs)
  have cal: "calendar_date (ex_time 2024 2 28 18 0)"
    by (simp add: calendar_date_def month_lengths_def gregorian_leap_def ex_time_def)
  have fields: "year (ex_time y m d h mi) = y" "month (ex_time y m d h mi) = m"
      "day (ex_time y m d h mi) = d" "hour (ex_time y m d h mi) = h" for y m d h mi
    by (simp_all add: ex_time_def)
  have "targetDate (ex_time 2024 4 30 0 0) = targetDate (ex_time 2024 4 30 5 59)"
    using target_date_rule [of "ex_time 2024 4 30 5 59" "ex_time 2024 4 30 0 0"]
    by (simp add: fields)
  moreover have "targetDate (ex_time 2024 4 30 23 30) = targetDate (ex_time 2024 4 30 6 0)"
    using target_date_rule [of "ex_time 2024 4 30 6 0" "ex_time 2024 4 30 23 30"]
    by (simp add: fields)
  moreover have "calendar_date (plus_one_day (ex_time 2024 2 28 18 0))
      \<and> earlier_date (ex_time 2024 2 28 18 0) (plus_one_day (ex_time 2024 2 28 18 0))"
    using target_date_rule [of "ex_time 2024 2 28 18 0" "ex_time 2024 2 28 18 0"] cal
    by simp
  moreover have "read_nat (drop 8 (targetDate (ex_time 2024 2 28 18 0))) = 29"
  proof -
    let ?t = "ex_time 2024 2 28 18 0"
    have "year ?t < 9999"
      by (simp add: fields)
    with cal have "read_nat (drop 8 (targetDate ?t)) = day (if hour ?t < 6 then ?t else plus_one_day ?t)"
      using target_date_rule [of ?t ?t] by blast
    also have "\<dots> = 29"
      by (simp add: ex_time_def plus_one_day_def daysInMonth_def isLeapYear_def)
    finally show ?thesis .
  qed
  ultimately show ?thesis
    using dates cal by simp
qed

subsection \<open>Digest renderer: the section of the broadcasters\<close>

lemma codeUnitCompare_total: "codeUnitCompare a b \<le> 0 \<or> codeUnitCompare b a \<le> 0"
  by (induction a b rule: codeUnitCompare.induct) auto

lemma codeUnitCompare_Cons:
  "codeUnitCompare (x # xs) (y # ys) \<le> 0 \<longleftrightarrow>
     (of_char x :: nat) < of_char y \<or> ((of_char x :: nat) = of_char y \<and> codeUnitCompare xs ys \<le> 0)"
  by auto

lemma codeUnitCompare_trans:
  "codeUnitCompare a b \<le> 0 \<Longrightarrow> codeUnitCompare b d \<le> 0 \<Longrightarrow> codeUnitCompare a d \<le> 0"
proof (induction a arbitrary: b d)
  case Nil
  then show ?case by (cases d) simp_all
next
  case (Cons x xs)
  from Cons.prems(1) obtain y ys where b: "b = y # ys"
    by (cases b) simp_all
  from Cons.prems(2) b obtain z zs where d: "d = z # zs"
    by (cases d) simp_all
  from Cons.prems b d have
    xy: "(of_char x :: nat) < of_char y \<or> ((of_char x :: nat) = of_char y \<and> codeUnitCompare xs ys \<le> 0)"
    and yz: "(of_char y :: nat) < of_char z \<or> ((of_char y :: nat) = of_char z \<and> codeUnitCompare ys zs \<le> 0)"
    by (simp_all only: codeUnitCompare_Cons)
  then have "(of_char x :: nat) < of_char z
      \<or> ((of_char x :: nat) = of_char z \<and> codeUnitCompare xs ys \<le> 0 \<and> codeUnitCompare ys zs \<le> 0)"
    by linarith
  then have "(of_char x :: nat) < of_char z
      \<or> ((of_char x :: nat) = of_char z \<and> codeUnitCompare xs zs \<le> 0)"
    using Cons.IH by blast
  then show ?case
    unfolding d by (simp only: codeUnitCompare_Cons)
qed

lemma groups_in_rows: "groups_in (map (\<lambda>b. BroadcasterRow b g) bs @ ps) = groups_in ps"
  by (induction bs) auto

lemma takeWhile_rows:
  "\<forall>p\<in>set (take 1 ps). \<not> is_row p \<Longrightarrow>
   concat (map row_broadcaster (takeWhile is_row (map (\<lambda>b. BroadcasterRow b g) bs @ ps))) = bs"
proof (induction bs)
  case Nil
  then show ?case by (cases ps) auto
next
  case (Cons b bs)
  then show ?case by simp
qed

lemma groups_in_section:
  "groups_in (broadcasters_section tv st) =
     (if tv = [] then [] else [(''TV'', tv)]) @ (if st = [] then [] else [(''STREAMING'', st)])"
proof -
  have one: "groups_in (GroupHeader l p # map (\<lambda>b. BroadcasterRow b g) bs @ ps) = (l, bs) # groups_in ps"
    if "\<forall>p\<in>set (take 1 ps). \<not> is_row p" for l p g bs ps
    using that by (simp add: takeWhile_rows groups_in_rows)
  show ?thesis
  proof (cases "tv = []")
    case True
    then show ?thesis
      using one [of "[]" "''STREAMING''" "''4px''" "''streaming''" st]
      by (simp add: broadcasters_section_def)
  next
    case False
    show ?thesis
    proof (cases "st = []")
      case True
      with False show ?thesis
        using one [of "[]" "''TV''" "''4px''" "''tv''" tv]
        by (simp add: broadcasters_section_def)
    next
      case st: False
      have "groups_in (GroupHeader ''TV'' ''4px'' # map (\<lambda>b. BroadcasterRow b ''tv'') tv
          @ (GroupHeader ''STREAMING'' ''25px'' # map (\<lambda>b. BroadcasterRow b ''streaming'') st @ []))
          = (''TV'', tv) # (''STREAMING'', st) # groups_in []"
        by (subst one, simp, subst one, simp, rule refl)
      with False st show ?thesis
        by (simp add: broadcasters_section_def)
    qed
  qed
qed

lemma placeholder_section:
  "(NoBroadcaster \<in> set (broadcasters_section tv st) \<longleftrightarrow> tv = [] \<and> st = [])
   \<and> (tv = [] \<and> st = [] \<longrightarrow> broadcasters_section tv st = [NoBroadcaster])"
  by (auto simp: broadcasters_section_def)

lemma diffuseurs_generateEventHTML:
  "diffuseurs (generateEventHTML h e sm) =
     broadcasters_section (tv_of h (broadcasters e)) (streaming_of h (broadcasters e))"
  by (simp add: generateEventHTML_def Let_def)

text \<open>
  Claim C8, as the script renders the section, for a \<open>localeCompare\<close> that is a total
  preorder. The rendered section has at most the two groups "TV" and "STREAMING", in
  this order: a group is rendered exactly when it has an entry. The group "TV" holds the
  broadcasters of the event whose type is \<open>tv\<close>, the group "STREAMING" those whose type is
  \<open>streaming\<close>, each as often as the event lists it and sorted by name. Every row of the
  section is a broadcaster of the event of one of the two types, so a broadcaster of
  another type is in no group. The placeholder line is rendered exactly when both
  groups are empty, and it is then the whole section.
\<close>

theorem broadcasters_groups:
  assumes "\<forall>a b. localeCompare h a b \<le> 0 \<or> localeCompare h b a \<le> 0"
    and "\<forall>a b c. localeCompare h a b \<le> 0 \<and> localeCompare h b c \<le> 0 \<longrightarrow> localeCompare h a c \<le> 0"
  shows "groups_in (diffuseurs (generateEventHTML h e sm)) =
           (if tv_of h (broadcasters e) = [] then [] else [(''TV'', tv_of h (broadcasters e))])
           @ (if streaming_of h (broadcasters e) = [] then []
              else [(''STREAMING'', streaming_of h (broadcasters e))])
       \<and> mset (tv_of h (broadcasters e)) = mset (filter (\<lambda>b. type b = Some ''tv'') (broadcasters e))
       \<and> mset (streaming_of h (broadcasters e))
           = mset (filter (\<lambda>b. type b = Some ''streaming'') (broadcasters e))
       \<and> sorted_wrt (\<lambda>a b. localeCompare h (broadcaster.name a) (broadcaster.name b) \<le> 0)
           (tv_of h (broadcasters e))
       \<and> sorted_wrt (\<lambda>a b. localeCompare h (broadcaster.name a) (broadcaster.name b) \<le> 0)
           (streaming_of h (broadcasters e))
       \<and> (\<forall>b g. BroadcasterRow b g \<in> set (diffuseurs (generateEventHTML h e sm)) \<longrightarrow>
             b \<in> set (broadcasters e)
             \<and> (type b = Some ''tv'' \<and> g = ''tv'' \<or> type b = Some ''streaming'' \<and> g = ''streaming''))
       \<and> (NoBroadcaster \<in> set (diffuseurs (generateEventHTML h e sm)) \<longleftrightarrow>
             tv_of h (broadcasters e) = [] \<and> streaming_of h (broadcasters e) = [])
       \<and> (tv_of h (broadcasters e) = [] \<and> streaming_of h (broadcasters e) = [] \<longrightarrow>
             diffuseurs (generateEventHTML h e sm) = [NoBroadcaster])"
proof -
  let ?c = "\<lambda>a b. localeCompare h (broadcaster.name a) (broadcaster.name b)"
  let ?sec = "diffuseurs (generateEventHTML h e sm)"
  let ?tv = "tv_of h (broadcasters e)"
  let ?st = "streaming_of h (broadcasters e)"
  have sec: "?sec = broadcasters_section ?tv ?st"
    by (rule diffuseurs_generateEventHTML)
  have total: "?c a b \<le> 0 \<or> ?c b a \<le> 0" for a b
    using assms(1) by blast
  have trans: "?c a b \<le> 0 \<Longrightarrow> ?c b d \<le> 0 \<Longrightarrow> ?c a d \<le> 0" for a b d
    using assms(2) by blast
  have sorted: "sorted_wrt (\<lambda>a b. ?c a b \<le> 0) (js_sort ?c xs)" for xs
    by (rule sorted_js_sort [of ?c, OF total trans])
  have c1: "groups_in ?sec =
      (if ?tv = [] then [] else [(''TV'', ?tv)]) @ (if ?st = [] then [] else [(''STREAMING'', ?st)])"
    unfolding sec by (rule groups_in_section)
  have c2: "mset ?tv = mset (filter (\<lambda>b. type b = Some ''tv'') (broadcasters e))"
    unfolding tv_of_def by (rule mset_js_sort)
  have c3: "mset ?st = mset (filter (\<lambda>b. type b = Some ''streaming'') (broadcasters e))"
    unfolding streaming_of_def by (rule mset_js_sort)
  have c4: "sorted_wrt (\<lambda>a b. ?c a b \<le> 0) ?tv"
    unfolding tv_of_def by (rule sorted)
  have c5: "sorted_wrt (\<lambda>a b. ?c a b \<le> 0) ?st"
    unfolding streaming_of_def by (rule sorted)
  have in_tv: "b \<in> set (broadcasters e) \<and> type b = Some ''tv''" if "b \<in> set ?tv" for b
    using that by (simp add: tv_of_def set_js_sort)
  have in_st: "b \<in> set (broadcasters e) \<and> type b = Some ''streaming''" if "b \<in> set ?st" for b
    using that by (simp add: streaming_of_def set_js_sort)
  have rows_of: "BroadcasterRow b g \<in> set (broadcasters_section tv st) \<Longrightarrow>
      b \<in> set tv \<and> g = ''tv'' \<or> b \<in> set st \<and> g = ''streaming''" for b g tv st
    by (auto simp: broadcasters_section_def split: if_splits)
  have c6: "\<forall>b g. BroadcasterRow b g \<in> set ?sec \<longrightarrow>
      b \<in> set (broadcasters e)
      \<and> (type b = Some ''tv'' \<and> g = ''tv'' \<or> type b = Some ''streaming'' \<and> g = ''streaming'')"
    unfolding sec using rows_of in_tv in_st by blast
  have c7: "NoBroadcaster \<in> set ?sec \<longleftrightarrow> ?tv = [] \<and> ?st = []"
    unfolding sec using placeholder_section [of ?tv ?st] by blast
  have c8: "?tv = [] \<and> ?st = [] \<longrightarrow> ?sec = [NoBroadcaster]"
    unfolding sec using placeholder_section [of ?tv ?st] by blast
  from c1 c2 c3 c4 c5 c6 c7 c8 show ?thesis
    by (intro conjI)
qed

theorem broadcasters_groups_witness:
  "map (\<lambda>(l, bs). (l, map broadcaster.name bs))
        (groups_in (diffuseurs (generateEventHTML ex_host ex_event Map.empty)))
       = [(''TV'', [''Canal'', ''Eurosport'']), (''STREAMING'', [''Prime''])]
   \<and> diffuseurs (generateEventHTML ex_host
        (enrich (broadcasterMap_of (Some ex_broadcasters)) (ex_row (Some [4, 8]))) Map.empty)
       = [NoBroadcaster]"
proof -
  let ?lone = "enrich (broadcasterMap_of (Some ex_broadcasters)) (ex_row (Some [4, 8]))"
  have total: "\<forall>a b. localeCompare ex_host a b \<le> 0 \<or> localeCompare ex_host b a \<le> 0"
    by (simp add: ex_host_def codeUnitCompare_total)
  have trans: "\<forall>a b c. localeCompare ex_host a b \<le> 0 \<and> localeCompare ex_host b c \<le> 0
      \<longrightarrow> localeCompare ex_host a c \<le> 0"
    using codeUnitCompare_trans by (auto simp: ex_host_def)
  have bs: "broadcasters ex_event = [ex_broadcasters ! 0, ex_broadcasters ! 2, ex_broadcasters ! 3,
      ex_broadcasters ! 1]"
    by (simp add: ex_event_def ex_row_def ex_broadcasters_def or_empty_def enrich_def event.defs
        resolve_broadcasters_def broadcasterMap_of_def fromEntries_def)
  have tv: "map broadcaster.name (tv_of ex_host (broadcasters ex_event)) = [''Canal'', ''Eurosport'']"
    unfolding bs by (simp add: tv_of_def js_sort_def ex_host_def ex_broadcasters_def)
  have st: "map broadcaster.name (streaming_of ex_host (broadcasters ex_event)) = [''Prime'']"
    unfolding bs by (simp add: streaming_of_def js_sort_def ex_host_def ex_broadcasters_def)
  have lone: "broadcasters ?lone = [ex_broadcasters ! 3]"
    by (simp add: ex_row_def ex_broadcasters_def or_empty_def enrich_def event.defs
        resolve_broadcasters_def broadcasterMap_of_def fromEntries_def)
  have none: "tv_of ex_host (broadcasters ?lone) = [] \<and> streaming_of ex_host (broadcasters ?lone) = []"
    unfolding lone by (simp add: tv_of_def streaming_of_def js_sort_def ex_broadcasters_def)
  have "map (\<lambda>(l, bs). (l, map broadcaster.name bs))
        (groups_in (diffuseurs (generateEventHTML ex_host ex_event Map.empty)))
       = [(''TV'', [''Canal'', ''Eurosport'']), (''STREAMING'', [''Prime''])]"
    using broadcasters_groups [OF total trans, of ex_event Map.empty] tv st
    by (auto split: if_splits)
  moreover have "diffuseurs (generateEventHTML ex_host ?lone Map.empty) = [NoBroadcaster]"
    using broadcasters_groups [OF total trans, of ?lone Map.empty] none by simp
  ultimately show ?thesis
    by simp
qed

text \<open>
  The claim as written says that the section of every event block has exactly two
  groups. An event whose only broadcaster is of type \<open>streaming\<close> is rendered with the
  single group "STREAMING": the header "TV" is under the test \<open>tv.length > 0\<close>.
\<close>

theorem broadcasters_one_group_counterexample:
  "map type (broadcasters (enrich (broadcasterMap_of (Some ex_broadcasters)) (ex_row (Some [3]))))
     = [Some ''streaming'']
   \<and> map (\<lambda>(l, bs). (l, map broadcaster.name bs))
        (groups_in (diffuseurs (generateEventHTML ex_host
           (enrich (broadcasterMap_of (Some ex_broadcasters)) (ex_row (Some [3]))) Map.empty)))
       = [(''STREAMING'', [''Prime''])]
   \<and> length (groups_in (diffuseurs (generateEventHTML ex_host
           (enrich (broadcasterMap_of (Some ex_broadcasters)) (ex_row (Some [3]))) Map.empty)))
       \<noteq> 2"
  by (simp add: ex_row_def ex_broadcasters_def or_empty_def enrich_def event.defs
      resolve_broadcasters_def broadcasterMap_of_def fromEntries_def generateEventHTML_def
      tv_of_def streaming_of_def js_sort_def broadcasters_section_def Let_def)

subsection \<open>Dispatcher: the batches\<close>

lemma groups_of_Nil: "groups_of B [] = []"
  by (simp add: groups_of.simps)

lemma groups_of_step: "0 < B \<Longrightarrow> xs \<noteq> [] \<Longrightarrow> groups_of B xs = take B xs # groups_of B (drop B xs)"
  by (subst groups_of.simps) simp

lemma concat_groups_of: "0 < B \<Longrightarrow> concat (groups_of B xs) = xs"
proof (induction B xs rule: groups_of.induct)
  case (1 B xs)
  then show ?case
    by (cases "xs = []") (simp_all add: groups_of_Nil groups_of_step)
qed

lemma lengths_groups_of:
  "0 < B \<Longrightarrow>
   map length (groups_of B xs) =
     replicate (length xs div B) B @ (if length xs mod B = 0 then [] else [length xs mod B])"
proof (induction B xs rule: groups_of.induct)
  case (1 B xs)
  show ?case
  proof (cases "xs = []")
    case True
    then show ?thesis by (simp add: groups_of_Nil)
  next
    case False
    note IH = "1.IH" [OF _ "1.prems"]
    show ?thesis
    proof (cases "B \<le> length xs")
      case True
      then have "length xs div B = Suc ((length xs - B) div B)"
        using "1.prems" by (simp add: le_div_geq)
      moreover have "length xs mod B = (length xs - B) mod B"
        using True by (simp add: le_mod_geq)
      ultimately show ?thesis
        using False True "1.prems" IH by (simp add: groups_of_step min_def)
    next
      case less: False
      then have "drop B xs = []" by simp
      with False less "1.prems" show ?thesis
        by (simp add: groups_of_step groups_of_Nil)
    qed
  qed
qed

lemma groups_of_empty_iff: "0 < B \<Longrightarrow> groups_of B xs = [] \<longleftrightarrow> xs = []"
  by (cases "xs = []") (simp_all add: groups_of_Nil groups_of_step)

lemma run_groups_Cons:
  "run_groups body (g # gs) st =
     (if gs = [] then fold body g st
      else run_groups body gs (sleep DELAY_BETWEEN_BATCHES (fold body g st)))"
  by (cases gs) simp_all

lemma send_batches_from:
  assumes "0 < B"
  shows "send_batches B body xs i st = Some (run_groups body (groups_of B (drop i xs)) st)"
proof (induction "length xs - i" arbitrary: i st rule: less_induct)
  case less
  show ?case
  proof (cases "i < length xs")
    case False
    then show ?thesis
      by (subst send_batches.simps) (simp add: groups_of_Nil)
  next
    case True
    let ?batch = "take B (drop i xs)"
    let ?st1 = "fold body ?batch st"
    let ?st2 = "if i + B < length xs then sleep DELAY_BETWEEN_BATCHES ?st1 else ?st1"
    have "length xs - (i + B) < length xs - i"
      using True assms by simp
    then have IH: "send_batches B body xs (i + B) ?st2 =
        Some (run_groups body (groups_of B (drop (i + B) xs)) ?st2)"
      by (rule less)
    have gs: "groups_of B (drop i xs) = ?batch # groups_of B (drop (i + B) xs)"
      using True assms by (simp add: groups_of_step add.commute)
    have "groups_of B (drop (i + B) xs) = [] \<longleftrightarrow> \<not> i + B < length xs"
      using assms by (simp add: groups_of_empty_iff not_less)
    then have "run_groups body (groups_of B (drop i xs)) st =
        run_groups body (groups_of B (drop (i + B) xs)) ?st2"
      unfolding gs run_groups_Cons by (cases "i + B < length xs") simp_all
    moreover have "send_batches B body xs i st = send_batches B body xs (i + B) ?st2"
      using True by (subst send_batches.simps) (simp add: Let_def)
    ultimately show ?thesis
      using IH by simp
  qed
qed

lemma send_digest_trace:
  "userIdToEmail (fst entry) = Some (Some e) \<Longrightarrow> e \<noteq> [] \<Longrightarrow> snd entry \<noteq> [] \<Longrightarrow>
   trace (send_digest h sm userIdToEmail sg entry st) =
     trace st @ [SgSend e (generateEmailHTML h (map snd (sorted_events h (snd entry))) sm),
                 if sg (sent st + failed st) then ConsoleLog (SentTo e)
                 else ConsoleError (SendFailed e),
                 Sleep DELAY_BETWEEN_EMAILS]"
  by (simp add: send_digest_def falsy_str_def Let_def sleep_def)

lemma send_digest_skip:
  "userIdToEmail (fst entry) \<in> {None, Some None, Some (Some [])} \<or> snd entry = [] \<Longrightarrow>
   send_digest h sm userIdToEmail sg entry st = st"
  by (auto simp: send_digest_def falsy_str_def Let_def)

text \<open>
  Claim C6. For every batch size \<open>B > 0\<close> the outer loop returns, and it does what the
  specification says: it runs the loop body on the users in their order, group by
  group, and sleeps \<open>DELAY_BETWEEN_BATCHES\<close> after every group but the last. The groups
  are consecutive pieces of the list: \<open>n div B\<close> groups of \<open>B\<close> users and, when \<open>B\<close> does
  not divide \<open>n\<close>, a last group of \<open>n mod B\<close> users. The loop body sends one message to a
  user with an e-mail address and an event and sleeps \<open>DELAY_BETWEEN_EMAILS\<close> after the
  send; it does nothing for another user.
\<close>

theorem dispatcher_batches:
  assumes "0 < B"
  shows "send_batches B body usersList 0 st = Some (run_groups body (groups_of B usersList) st)
    \<and> concat (groups_of B usersList) = usersList
    \<and> map length (groups_of B usersList) =
        replicate (length usersList div B) B
        @ (if length usersList mod B = 0 then [] else [length usersList mod B])
    \<and> (userIdToEmail (fst entry) = Some (Some e) \<and> e \<noteq> [] \<and> snd entry \<noteq> [] \<longrightarrow>
        paces (trace (send_digest h sm userIdToEmail sg entry st'))
          = paces (trace st') @ [Send_to e, Wait DELAY_BETWEEN_EMAILS])
    \<and> (userIdToEmail (fst entry) \<in> {None, Some None, Some (Some [])} \<or> snd entry = [] \<longrightarrow>
        send_digest h sm userIdToEmail sg entry st' = st')"
proof -
  have paces_append: "paces (xs @ ys) = paces xs @ paces ys" for xs ys
    by (induction xs rule: paces.induct) simp_all
  have "paces (trace (send_digest h sm userIdToEmail sg entry st'))
      = paces (trace st') @ [Send_to e, Wait DELAY_BETWEEN_EMAILS]"
    if "userIdToEmail (fst entry) = Some (Some e)" "e \<noteq> []" "snd entry \<noteq> []"
    using send_digest_trace [of userIdToEmail entry e h sm sg st', OF that]
    by (simp add: paces_append)
  moreover have "send_batches B body usersList 0 st = Some (run_groups body (groups_of B usersList) st)"
    using send_batches_from [OF assms, of body usersList 0 st] by simp
  ultimately show ?thesis
    using assms send_digest_skip [of userIdToEmail entry h sm sg st']
    by (simp add: concat_groups_of lengths_groups_of)
qed

theorem dispatcher_batches_witness:
  "(0::nat) < 5
   \<and> map (map fst) (groups_of 5 ex_users)
       = [[''a'', ''b'', ''c'', ''d'', ''e''], [''f'', ''g'', ''h'', ''i'', ''j''], [''k'', ''l'']]
   \<and> map_option (\<lambda>st. paces (trace st))
        (send_batches 5 (send_digest ex_host Map.empty ex_emails (\<lambda>k. True)) ex_users 0
           \<lparr>sent = 0, failed = 0, trace = []\<rparr>)
       = Some [Send_to ''a@b.com'', Wait 600, Send_to ''b@b.com'', Wait 600, Send_to ''c@b.com'', Wait 600,
               Send_to ''d@b.com'', Wait 600, Send_to ''e@b.com'', Wait 600, Wait 2000,
               Send_to ''f@b.com'', Wait 600, Send_to ''g@b.com'', Wait 600, Send_to ''h@b.com'', Wait 600,
               Send_to ''i@b.com'', Wait 600, Send_to ''j@b.com'', Wait 600, Wait 2000,
               Send_to ''k@b.com'', Wait 600, Send_to ''l@b.com'', Wait 600]"
proof -
  let ?body = "send_digest ex_host Map.empty ex_emails (\<lambda>k. True)"
  let ?st = "\<lparr>sent = 0, failed = 0, trace = []\<rparr>"
  have groups: "groups_of 5 ex_users =
      [take 5 ex_users, take 5 (drop 5 ex_users), drop 10 ex_users]"
    by (simp add: groups_of_step groups_of_Nil ex_users_def)
  have run: "paces (trace (run_groups ?body (groups_of 5 ex_users) ?st)) =
      [Send_to ''a@b.com'', Wait 600, Send_to ''b@b.com'', Wait 600, Send_to ''c@b.com'', Wait 600,
       Send_to ''d@b.com'', Wait 600, Send_to ''e@b.com'', Wait 600, Wait 2000,
       Send_to ''f@b.com'', Wait 600, Send_to ''g@b.com'', Wait 600, Send_to ''h@b.com'', Wait 600,
       Send_to ''i@b.com'', Wait 600, Send_to ''j@b.com'', Wait 600, Wait 2000,
       Send_to ''k@b.com'', Wait 600, Send_to ''l@b.com'', Wait 600]"
    unfolding groups
    by (simp add: ex_users_def ex_emails_def send_digest_def falsy_str_def sleep_def Let_def
        DELAY_BETWEEN_EMAILS_def DELAY_BETWEEN_BATCHES_def)
  have five: "0 < (5::nat)"
    by simp
  have loop: "send_batches 5 ?body ex_users 0 ?st = Some (run_groups ?body (groups_of 5 ex_users) ?st)"
    using dispatcher_batches [OF five, of ?body ex_users ?st, THEN conjunct1] .
  have names: "map (map fst) (groups_of 5 ex_users)
      = [[''a'', ''b'', ''c'', ''d'', ''e''], [''f'', ''g'', ''h'', ''i'', ''j''], [''k'', ''l'']]"
    unfolding groups by (simp add: ex_users_def)
  show ?thesis
    unfolding loop using run names by simp
qed

subsection \<open>The run and the process\<close>

lemma send_batches_Nil: "send_batches B body [] i st = Some st"
  by (subst send_batches.simps) simp

lemma match_users_no_alerts: "match_users h tm events [] = []"
proof -
  have "fold (\<lambda>ev m. fold (on_alert h tm ev) [] m) evs m = m" for evs and m :: "'a event_scheme userEventsMap"
    by (induction evs) simp_all
  then show ?thesis
    by (simp add: match_users_def)
qed

lemma send_batches_BATCH_SIZE:
  "send_batches BATCH_SIZE body xs 0 st = Some (run_groups body (groups_of BATCH_SIZE xs) st)"
  using send_batches_from [of BATCH_SIZE body xs 0 st] by (simp add: BATCH_SIZE_def)

lemma main_returns: "\<exists>r. main h now store sg = Some r"
  by (simp add: main_def Let_def send_batches_BATCH_SIZE)

lemma main_events_error:
  assumes "error (eventsRes store (targetDate now)) = Some msg"
  shows "main h now store sg =
      Some ([ConsoleLog Starting, trigger_line now], Threw (''Error fetching events: '' @ msg))"
  using assms by (simp add: main_def trigger_line_def Let_def)

lemma main_no_events:
  assumes "error (eventsRes store (targetDate now)) = None"
    and "or_empty (data (eventsRes store (targetDate now))) = []"
  shows "main h now store sg =
      Some ([ConsoleLog Starting, trigger_line now, ConsoleLog NoEventsFound], Returned)"
  using assms by (simp add: main_def trigger_line_def Let_def)

lemma main_no_alerts:
  assumes "error (eventsRes store (targetDate now)) = None"
    and "or_empty (data (eventsRes store (targetDate now))) \<noteq> []"
    and "or_empty (data (alertsRes store)) = []"
  shows "main h now store sg =
      Some ([ConsoleLog Starting, trigger_line now,
             ConsoleLog (FoundEvents (length (or_empty (data (eventsRes store (targetDate now)))))
                           (targetDate now)),
             ConsoleLog (PreparingDigest 0), ConsoleLog (Done 0 0)], Returned)"
  using assms
  by (simp add: main_def trigger_line_def Let_def match_users_no_alerts send_batches_Nil)

lemma script_main:
  assumes "\<not> falsy_str (SENDGRID_API_KEY env)" and "\<not> falsy_str (SUPABASE_URL env)"
    and "\<not> falsy_str (SUPABASE_SERVICE_ROLE_KEY env)"
  shows "main h now store sg = Some (out, Returned) \<Longrightarrow>
         script env h now store sg = Some \<lparr>printed = out, exit_code = 0\<rparr>"
    and "main h now store sg = Some (out, Threw msg) \<Longrightarrow>
         script env h now store sg = Some \<lparr>printed = out @ [ConsoleError (Rejected msg)], exit_code = 0\<rparr>"
  using assms by (simp_all add: script_def)

text \<open>
  Claim C7, as the script behaves. When the events query reports an error, \<open>main\<close> throws
  after its first two log lines: nothing is matched and no message is sent. With the
  three environment variables set, the process prints the error through
  \<open>.catch(console.error)\<close> and then ends with exit status 0: the rejection is handled, and
  nothing in the script sets another status.
\<close>

theorem events_fetch_error:
  assumes "error (eventsRes store (targetDate now)) = Some msg"
  shows "main h now store sg =
           Some ([ConsoleLog Starting, trigger_line now], Threw (''Error fetching events: '' @ msg))
       \<and> (\<not> falsy_str (SENDGRID_API_KEY env) \<and> \<not> falsy_str (SUPABASE_URL env)
            \<and> \<not> falsy_str (SUPABASE_SERVICE_ROLE_KEY env) \<longrightarrow>
           script env h now store sg =
             Some \<lparr>printed = [ConsoleLog Starting, trigger_line now,
                               ConsoleError (Rejected (''Error fetching events: '' @ msg))],
                    exit_code = 0\<rparr>
           \<and> paces (printed (the (script env h now store sg))) = [])"
proof -
  note m = main_events_error [OF assms, of h sg]
  have "script env h now store sg =
      Some \<lparr>printed = [ConsoleLog Starting, trigger_line now,
                        ConsoleError (Rejected (''Error fetching events: '' @ msg))],
             exit_code = 0\<rparr>"
    if "\<not> falsy_str (SENDGRID_API_KEY env)" "\<not> falsy_str (SUPABASE_URL env)"
      "\<not> falsy_str (SUPABASE_SERVICE_ROLE_KEY env)"
    using script_main(2) [OF that m] by simp
  then show ?thesis
    using m by (simp add: trigger_line_def)
qed

theorem events_fetch_error_witness:
  "error (eventsRes (ex_store \<lparr>data = None, error = Some ''timeout''\<rparr> \<lparr>data = None, error = None\<rparr>)
            (targetDate (ex_time 2024 4 30 18 0))) = Some ''timeout''
   \<and> main ex_host (ex_time 2024 4 30 18 0)
         (ex_store \<lparr>data = None, error = Some ''timeout''\<rparr> \<lparr>data = None, error = None\<rparr>) (\<lambda>k. True)
       = Some ([ConsoleLog Starting, trigger_line (ex_time 2024 4 30 18 0)],
               Threw ''Error fetching events: timeout'')
   \<and> \<not> falsy_str (SENDGRID_API_KEY ex_env) \<and> \<not> falsy_str (SUPABASE_URL ex_env)
   \<and> \<not> falsy_str (SUPABASE_SERVICE_ROLE_KEY ex_env)
   \<and> map_option printed
        (script ex_env ex_host (ex_time 2024 4 30 18 0)
           (ex_store \<lparr>data = None, error = Some ''timeout''\<rparr> \<lparr>data = None, error = None\<rparr>) (\<lambda>k. True))
       = Some [ConsoleLog Starting, trigger_line (ex_time 2024 4 30 18 0),
               ConsoleError (Rejected ''Error fetching events: timeout'')]"
  using events_fetch_error [of "ex_store \<lparr>data = None, error = Some ''timeout''\<rparr> \<lparr>data = None, error = None\<rparr>"
      "ex_time 2024 4 30 18 0" "''timeout''" ex_host "\<lambda>k. True" ex_env]
  by (simp add: ex_store_def ex_env_def falsy_str_def)

text \<open>
  The claim as written says that the process ends with a non-zero exit status. For a
  store whose events query fails with "timeout" the exit status is 0.
\<close>

theorem events_fetch_error_exit_counterexample:
  "error (eventsRes (ex_store \<lparr>data = None, error = Some ''timeout''\<rparr> \<lparr>data = None, error = None\<rparr>)
            (targetDate (ex_time 2024 4 30 18 0))) \<noteq> None
   \<and> map_option exit_code
        (script ex_env ex_host (ex_time 2024 4 30 18 0)
           (ex_store \<lparr>data = None, error = Some ''timeout''\<rparr> \<lparr>data = None, error = None\<rparr>) (\<lambda>k. True))
       = Some 0"
  by (simp add: script_def main_def ex_env_def ex_store_def falsy_str_def Let_def)

text \<open>
  Claim C10. When the events query succeeds with no row (an empty array, or no array at
  all), \<open>main\<close> returns after the line "No events found for target date": nothing is
  matched, no message is sent, the summary line is not printed, and the process ends
  with exit status 0. In contrast, a run with events and an empty or failed alerts
  query goes on to the end and prints the summary "0 sent, 0 failed", whatever the
  other four optional queries return.
\<close>

theorem no_events_early_return:
  assumes "error (eventsRes store (targetDate now)) = None"
    and "or_empty (data (eventsRes store (targetDate now))) = []"
  shows "main h now store sg =
           Some ([ConsoleLog Starting, trigger_line now, ConsoleLog NoEventsFound], Returned)
       \<and> (\<not> falsy_str (SENDGRID_API_KEY env) \<and> \<not> falsy_str (SUPABASE_URL env)
            \<and> \<not> falsy_str (SUPABASE_SERVICE_ROLE_KEY env) \<longrightarrow>
           script env h now store sg =
             Some \<lparr>printed = [ConsoleLog Starting, trigger_line now, ConsoleLog NoEventsFound],
                    exit_code = 0\<rparr>)
       \<and> (error (eventsRes store' (targetDate now)) = None
            \<and> or_empty (data (eventsRes store' (targetDate now))) \<noteq> []
            \<and> or_empty (data (alertsRes store')) = [] \<longrightarrow>
           main h now store' sg =
             Some ([ConsoleLog Starting, trigger_line now,
                    ConsoleLog (FoundEvents (length (or_empty (data (eventsRes store' (targetDate now)))))
                                  (targetDate now)),
                    ConsoleLog (PreparingDigest 0), ConsoleLog (Done 0 0)], Returned))"
proof -
  note m = main_no_events [OF assms, of h sg]
  have "script env h now store sg =
      Some \<lparr>printed = [ConsoleLog Starting, trigger_line now, ConsoleLog NoEventsFound],
             exit_code = 0\<rparr>"
    if "\<not> falsy_str (SENDGRID_API_KEY env)" "\<not> falsy_str (SUPABASE_URL env)"
      "\<not> falsy_str (SUPABASE_SERVICE_ROLE_KEY env)"
    using script_main(1) [OF that m] .
  then show ?thesis
    using m main_no_alerts [of store' now h sg] by blast
qed

theorem no_events_early_return_witness:
  "main ex_host (ex_time 2024 4 30 18 0)
      (ex_store \<lparr>data = Some [], error = None\<rparr> \<lparr>data = Some [ex_alert ''U1'' 20 None None], error = None\<rparr>)
      (\<lambda>k. True)
     = Some ([ConsoleLog Starting, trigger_line (ex_time 2024 4 30 18 0), ConsoleLog NoEventsFound],
             Returned)
   \<and> script ex_env ex_host (ex_time 2024 4 30 18 0)
      (ex_store \<lparr>data = None, error = None\<rparr> \<lparr>data = Some [ex_alert ''U1'' 20 None None], error = None\<rparr>)
      (\<lambda>k. True)
     = Some \<lparr>printed = [ConsoleLog Starting, trigger_line (ex_time 2024 4 30 18 0),
                        ConsoleLog NoEventsFound], exit_code = 0\<rparr>
   \<and> main ex_host (ex_time 2024 4 30 18 0)
      (ex_store \<lparr>data = Some [ex_row None], error = None\<rparr> \<lparr>data = None, error = Some ''down''\<rparr>)
      (\<lambda>k. True)
     = Some ([ConsoleLog Starting, trigger_line (ex_time 2024 4 30 18 0),
              ConsoleLog (FoundEvents 1 (targetDate (ex_time 2024 4 30 18 0))),
              ConsoleLog (PreparingDigest 0), ConsoleLog (Done 0 0)], Returned)"
  using no_events_early_return [of
      "ex_store \<lparr>data = Some [], error = None\<rparr> \<lparr>data = Some [ex_alert ''U1'' 20 None None], error = None\<rparr>"
      "ex_time 2024 4 30 18 0" ex_host "\<lambda>k. True" ex_env
      "ex_store \<lparr>data = Some [ex_row None], error = None\<rparr> \<lparr>data = None, error = Some ''down''\<rparr>"]
    no_events_early_return [of
      "ex_store \<lparr>data = None, error = None\<rparr> \<lparr>data = Some [ex_alert ''U1'' 20 None None], error = None\<rparr>"
      "ex_time 2024 4 30 18 0" ex_host "\<lambda>k. True" ex_env
      "ex_store \<lparr>data = Some [ex_row None], error = None\<rparr> \<lparr>data = None, error = Some ''down''\<rparr>"]
  by (simp add: ex_store_def ex_env_def falsy_str_def or_empty_def)

end
